theory Spec2Isabelle
  imports Main "HOL-Library.Word"
begin

section \<open>The service manager (service\_manager.h, service\_manager.c)\<close>

text \<open>
  The global \<^verbatim>\<open>g_service_manager\<close> is passed explicitly. C conventions of the model:
  \<^item> \<^verbatim>\<open>int\<close> is a 32-bit word, \<^verbatim>\<open>uint32_t\<close> and \<^verbatim>\<open>uint64_t\<close> are words of their width;
  \<^item> a \<^verbatim>\<open>const char *\<close> is a \<open>string option\<close>, \<open>None\<close> being the NULL pointer;
  \<^item> a function pointer is the address of the function (\<open>None\<close> is NULL); what the code at
    that address does is given by the environment, which threads the state of everything
    outside the manager (the world \<open>'w\<close>) through each call;
  \<^item> the pair \<^verbatim>\<open>dependencies\<close>, \<^verbatim>\<open>dependencies_count\<close> is an optional list of names;
  \<^item> \<^verbatim>\<open>services[0 .. service_count)\<close> is a list, a \<^verbatim>\<open>vgik_service_t *\<close> into it is an index.
  Callbacks are assumed to return and not to call back into the manager.
\<close>

type_synonym c_int = "32 word"

datatype vgik_service_state_t =
    VGIK_SERVICE_STATE_STOPPED
  | VGIK_SERVICE_STATE_STARTING
  | VGIK_SERVICE_STATE_RUNNING
  | VGIK_SERVICE_STATE_STOPPING
  | VGIK_SERVICE_STATE_FAILED
  | VGIK_SERVICE_STATE_RESTARTING

record vgik_service_t =
  name :: "string option"
  start_cb :: "nat option"
  stop_cb :: "nat option"
  health_cb :: "nat option"
  user_data :: nat
  dependencies :: "string option list option"
  auto_restart :: bool
  restart_delay_ms :: "32 word"
  max_restart_attempts :: "32 word"
  restart_count :: "32 word"
  state :: vgik_service_state_t
  start_time :: "64 word"
  last_restart_time :: "64 word"

text \<open>
  The history is not a field of the C struct: it records, in order, every assignment to a
  service's \<^verbatim>\<open>state\<close> and every callback invocation, so that the order of these effects
  can be stated. Nothing in the model reads it.
\<close>

datatype sm_effect =
    State_set "string option" vgik_service_state_t
  | Start_called "string option"
  | Stop_called "string option"
  | Health_called "string option"

record service_manager =
  initialized :: bool
  services :: "vgik_service_t list"
  history :: "sm_effect list"

record 'w sm_env =
  start_fn :: "nat \<Rightarrow> nat \<Rightarrow> 'w \<Rightarrow> c_int \<times> 'w"
  stop_fn :: "nat \<Rightarrow> nat \<Rightarrow> 'w \<Rightarrow> c_int \<times> 'w"
  health_fn :: "nat \<Rightarrow> nat \<Rightarrow> 'w \<Rightarrow> bool \<times> 'w"
  get_timestamp_ms :: "'w \<Rightarrow> 64 word"


text \<open>The search loop of \<^verbatim>\<open>find_service\<close>, from index \<open>i\<close> on.\<close>

fun find_from :: "nat \<Rightarrow> vgik_service_t list \<Rightarrow> string \<Rightarrow> nat option" where
  "find_from i [] n = None"
| "find_from i (s # ss) n = (if name s = Some n then Some i else find_from (Suc i) ss n)"

definition find_service :: "service_manager \<Rightarrow> string option \<Rightarrow> nat option" where
  "find_service m nm =
     (case nm of None \<Rightarrow> None | Some n \<Rightarrow> find_from 0 (services m) n)"

text \<open>\<^verbatim>\<open>service->state = st\<close> for the service at index \<open>i\<close>.\<close>

definition set_state :: "nat \<Rightarrow> vgik_service_state_t \<Rightarrow> service_manager \<Rightarrow> service_manager" where
  "set_state i st m =
     m\<lparr>services := (services m)[i := (services m ! i)\<lparr>state := st\<rparr>],
       history := history m @ [State_set (name (services m ! i)) st]\<rparr>"

fun check_deps :: "service_manager \<Rightarrow> string option list \<Rightarrow> bool" where
  "check_deps m [] = True"
| "check_deps m (dep_name # ds) =
     (case find_service m dep_name of
        None \<Rightarrow> False
      | Some j \<Rightarrow>
          if state (services m ! j) \<noteq> VGIK_SERVICE_STATE_RUNNING then False
          else check_deps m ds)"

definition check_dependencies :: "service_manager \<Rightarrow> nat \<Rightarrow> bool" where
  "check_dependencies m i =
     (case dependencies (services m ! i) of
        None \<Rightarrow> True
      | Some ds \<Rightarrow> check_deps m ds)"

text \<open>
  The part of \<^verbatim>\<open>vgik_service_start\<close> after the dependencies: the service is set to
  STARTING, its callback (if any) is called, and it ends RUNNING or FAILED.
\<close>

definition start_service :: "'w sm_env \<Rightarrow> nat \<Rightarrow> service_manager \<times> 'w \<Rightarrow> c_int \<times> service_manager \<times> 'w" where
  "start_service env i mw =
     (let m1 = set_state i VGIK_SERVICE_STATE_STARTING (fst mw);
          w = snd mw;
          s = services m1 ! i
      in case start_cb s of
           Some f \<Rightarrow>
             (let m2 = m1\<lparr>history := history m1 @ [Start_called (name s)]\<rparr>;
                  r = start_fn env f (user_data s) w
              in if fst r \<noteq> 0
                 then (fst r, set_state i VGIK_SERVICE_STATE_FAILED m2, snd r)
                 else (let m3 = set_state i VGIK_SERVICE_STATE_RUNNING m2
                       in (0, m3\<lparr>services := (services m3)
                                   [i := (services m3 ! i)\<lparr>start_time := get_timestamp_ms env (snd r)\<rparr>]\<rparr>,
                           snd r)))
         | None \<Rightarrow>
             (let m3 = set_state i VGIK_SERVICE_STATE_RUNNING m1
              in (0, m3\<lparr>services := (services m3)
                          [i := (services m3 ! i)\<lparr>start_time := get_timestamp_ms env w\<rparr>]\<rparr>,
                  w)))"

text \<open>
  \<^verbatim>\<open>vgik_service_start\<close> and \<^verbatim>\<open>start_dependencies\<close> call each other, with no bound when the
  dependency graph has a cycle. The first argument bounds the depth of the recursion;
  \<open>None\<close> says that the bound was reached before the call returned.
\<close>

fun vgik_service_start ::
    "nat \<Rightarrow> 'w sm_env \<Rightarrow> string option \<Rightarrow> service_manager \<times> 'w \<Rightarrow> (c_int \<times> service_manager \<times> 'w) option"
  and start_dependencies ::
    "nat \<Rightarrow> 'w sm_env \<Rightarrow> string option list \<Rightarrow> service_manager \<times> 'w \<Rightarrow> (c_int \<times> service_manager \<times> 'w) option"
where
  "vgik_service_start 0 env nm mw = None"
| "vgik_service_start (Suc k) env nm mw =
     (case find_service (fst mw) nm of
        None \<Rightarrow> Some (- 1, mw)
      | Some i \<Rightarrow>
          if state (services (fst mw) ! i) = VGIK_SERVICE_STATE_RUNNING \<or>
             state (services (fst mw) ! i) = VGIK_SERVICE_STATE_STARTING
          then Some (0, mw)
          else if \<not> check_dependencies (fst mw) i
          then (case start_dependencies k env
                       (case dependencies (services (fst mw) ! i) of None \<Rightarrow> [] | Some ds \<Rightarrow> ds) mw of
                  None \<Rightarrow> None
                | Some (r, mw1) \<Rightarrow>
                    if r \<noteq> 0
                    then Some (- 1, set_state i VGIK_SERVICE_STATE_FAILED (fst mw1), snd mw1)
                    else Some (start_service env i mw1))
          else Some (start_service env i mw))"
| "start_dependencies k env [] mw = Some (0, mw)"
| "start_dependencies k env (dep_name # ds) mw =
     (case vgik_service_start k env dep_name mw of
        None \<Rightarrow> None
      | Some (r, mw1) \<Rightarrow> if r \<noteq> 0 then Some (r, mw1) else start_dependencies k env ds mw1)"

definition vgik_service_stop ::
    "'w sm_env \<Rightarrow> string option \<Rightarrow> service_manager \<times> 'w \<Rightarrow> c_int \<times> service_manager \<times> 'w" where
  "vgik_service_stop env nm mw =
     (case find_service (fst mw) nm of
        None \<Rightarrow> (- 1, mw)
      | Some i \<Rightarrow>
          if state (services (fst mw) ! i) = VGIK_SERVICE_STATE_STOPPED \<or>
             state (services (fst mw) ! i) = VGIK_SERVICE_STATE_STOPPING
          then (0, mw)
          else
            (let m1 = set_state i VGIK_SERVICE_STATE_STOPPING (fst mw);
                 w = snd mw;
                 s = services m1 ! i;
                 stopped = (\<lambda>m w'.
                    (let m3 = set_state i VGIK_SERVICE_STATE_STOPPED m
                     in (0, m3\<lparr>services := (services m3)[i := (services m3 ! i)\<lparr>start_time := 0\<rparr>]\<rparr>, w')))
             in case stop_cb s of
                  Some f \<Rightarrow>
                    (let m2 = m1\<lparr>history := history m1 @ [Stop_called (name s)]\<rparr>;
                         r = stop_fn env f (user_data s) w
                     in if fst r \<noteq> 0
                        then (fst r, set_state i VGIK_SERVICE_STATE_FAILED m2, snd r)
                        else stopped m2 (snd r))
                | None \<Rightarrow> stopped m1 w))"


text \<open>
  \<^verbatim>\<open>memset\<close> with 0 turns every entry of the array into the struct of all zeroes; it does
  not change \<^verbatim>\<open>service_count\<close>.
\<close>

definition zero_service :: vgik_service_t where
  "zero_service =
     \<lparr>name = None, start_cb = None, stop_cb = None, health_cb = None, user_data = 0,
      dependencies = None, auto_restart = False, restart_delay_ms = 0,
      max_restart_attempts = 0, restart_count = 0, state = VGIK_SERVICE_STATE_STOPPED,
      start_time = 0, last_restart_time = 0\<rparr>"

definition vgik_service_manager_init :: "service_manager \<Rightarrow> c_int \<times> service_manager" where
  "vgik_service_manager_init m =
     (if initialized m then (0, m)
      else (0, m\<lparr>services := map (\<lambda>s. zero_service) (services m), initialized := True\<rparr>))"


text \<open>
  \<^verbatim>\<open>vgik_service_unregister\<close> searches with the loop of \<^verbatim>\<open>find_service\<close>; the shift of the
  array over the entry at \<open>i\<close> is the list without its element \<open>i\<close>.
\<close>

definition vgik_service_unregister ::
    "'w sm_env \<Rightarrow> string option \<Rightarrow> service_manager \<times> 'w \<Rightarrow> c_int \<times> service_manager \<times> 'w" where
  "vgik_service_unregister env nm mw =
     (case find_service (fst mw) nm of
        None \<Rightarrow> (- 1, mw)
      | Some i \<Rightarrow>
          (let mw1 = (if state (services (fst mw) ! i) = VGIK_SERVICE_STATE_RUNNING
                      then snd (vgik_service_stop env nm mw) else mw);
               m1 = fst mw1
           in (0, m1\<lparr>services := take i (services m1) @ drop (Suc i) (services m1)\<rparr>, snd mw1)))"

definition vgik_service_get_state :: "service_manager \<Rightarrow> string option \<Rightarrow> vgik_service_state_t" where
  "vgik_service_get_state m nm =
     (case find_service m nm of
        None \<Rightarrow> VGIK_SERVICE_STATE_FAILED
      | Some i \<Rightarrow> state (services m ! i))"

definition vgik_service_is_healthy ::
    "'w sm_env \<Rightarrow> string option \<Rightarrow> service_manager \<times> 'w \<Rightarrow> bool \<times> service_manager \<times> 'w" where
  "vgik_service_is_healthy env nm mw =
     (case find_service (fst mw) nm of
        None \<Rightarrow> (False, mw)
      | Some i \<Rightarrow>
          (let s = services (fst mw) ! i
           in if state s \<noteq> VGIK_SERVICE_STATE_RUNNING then (False, mw)
              else case health_cb s of
                     Some f \<Rightarrow>
                       (let r = health_fn env f (user_data s) (snd mw)
                        in (fst r, (fst mw)\<lparr>history := history (fst mw) @ [Health_called (name s)]\<rparr>, snd r))
                   | None \<Rightarrow> (True, mw)))"

text \<open>
  The body of the loop of \<^verbatim>\<open>vgik_service_manager_process\<close> for \<^verbatim>\<open>&services[i]\<close>, with
  \<open>now\<close> the time read before the loop.
\<close>

definition process_service ::
    "nat \<Rightarrow> 'w sm_env \<Rightarrow> 64 word \<Rightarrow> nat \<Rightarrow> service_manager \<times> 'w \<Rightarrow> (service_manager \<times> 'w) option" where
  "process_service k env now i mw =
     (let mw1 = (if state (services (fst mw) ! i) = VGIK_SERVICE_STATE_RUNNING
                 then snd (vgik_service_is_healthy env (name (services (fst mw) ! i)) mw)
                 else mw);
          m1 = fst mw1;
          s = services m1 ! i
      in if auto_restart s \<and> state s = VGIK_SERVICE_STATE_FAILED
         then if max_restart_attempts s > 0 \<and> restart_count s \<ge> max_restart_attempts s
              then Some mw1
              else if last_restart_time s = 0 \<or>
                      now - last_restart_time s \<ge> ucast (restart_delay_ms s)
              then (let m2 = m1\<lparr>services := (services m1)
                                   [i := s\<lparr>restart_count := restart_count s + 1,
                                           last_restart_time := now\<rparr>]\<rparr>;
                        m3 = set_state i VGIK_SERVICE_STATE_RESTARTING m2
                    in map_option snd (vgik_service_start k env (name (services m3 ! i)) (m3, snd mw1)))
              else Some mw1
         else Some mw1)"

text \<open>
  The loop itself, over the indices still to visit. \<^verbatim>\<open>service_count\<close> does not change
  while it runs (lemma \<open>process_services_step\<close>), so the indices are those below the
  count read on entry.
\<close>

fun process_services ::
    "nat \<Rightarrow> 'w sm_env \<Rightarrow> 64 word \<Rightarrow> nat list \<Rightarrow> service_manager \<times> 'w \<Rightarrow> (service_manager \<times> 'w) option" where
  "process_services k env now [] mw = Some mw"
| "process_services k env now (i # is) mw =
     (case process_service k env now i mw of
        None \<Rightarrow> None
      | Some mw1 \<Rightarrow> process_services k env now is mw1)"

definition vgik_service_manager_process ::
    "nat \<Rightarrow> 'w sm_env \<Rightarrow> service_manager \<times> 'w \<Rightarrow> (service_manager \<times> 'w) option" where
  "vgik_service_manager_process k env mw =
     (if \<not> initialized (fst mw) then Some mw
      else process_services k env (get_timestamp_ms env (snd mw))
             [0 ..< length (services (fst mw))] mw)"

text \<open>The names of the services whose start callback a history shows called, in order.\<close>

fun start_calls :: "sm_effect list \<Rightarrow> string option list" where
  "start_calls [] = []"
| "start_calls (Start_called n # es) = n # start_calls es"
| "start_calls (e # es) = start_calls es"

section \<open>The event system (events.h, events.c)\<close>

text \<open>
  The global \<^verbatim>\<open>g_events\<close> is passed explicitly, with the conventions of the service
  manager. The linked list from \<^verbatim>\<open>queue_head\<close> to \<^verbatim>\<open>queue_tail\<close> is the list of the events
  in its nodes, head first; the node pool is the number of nodes in it; the payload
  \<^verbatim>\<open>data\<close> is an optional list of bytes. \<^verbatim>\<open>queue_size\<close> is at most 256 and is a natural
  number. Each \<^verbatim>\<open>malloc\<close> succeeds or fails as the environment says. Handlers are assumed
  to return and not to call back into the event system.
\<close>

datatype vgik_event_type_t =
    VGIK_EVENT_NETWORK_INTERFACE_UP
  | VGIK_EVENT_NETWORK_INTERFACE_DOWN
  | VGIK_EVENT_NETWORK_CONNECTION_ESTABLISHED
  | VGIK_EVENT_NETWORK_CONNECTION_LOST
  | VGIK_EVENT_CONFIG_CHANGED
  | VGIK_EVENT_FIRMWARE_UPDATE_STARTED
  | VGIK_EVENT_FIRMWARE_UPDATE_COMPLETED
  | VGIK_EVENT_FIRMWARE_UPDATE_FAILED
  | VGIK_EVENT_SERVICE_STARTED
  | VGIK_EVENT_SERVICE_STOPPED
  | VGIK_EVENT_SERVICE_CRASHED
  | VGIK_EVENT_SYSTEM_REBOOT
  | VGIK_EVENT_CUSTOM
  | VGIK_EVENT_MAX

datatype vgik_event_priority_t =
    VGIK_EVENT_PRIORITY_LOW
  | VGIK_EVENT_PRIORITY_NORMAL
  | VGIK_EVENT_PRIORITY_HIGH
  | VGIK_EVENT_PRIORITY_CRITICAL

text \<open>The values of the enumerators, which \<^verbatim>\<open>>=\<close> compares.\<close>

fun priority_value :: "vgik_event_priority_t \<Rightarrow> nat" where
  "priority_value VGIK_EVENT_PRIORITY_LOW = 0"
| "priority_value VGIK_EVENT_PRIORITY_NORMAL = 1"
| "priority_value VGIK_EVENT_PRIORITY_HIGH = 2"
| "priority_value VGIK_EVENT_PRIORITY_CRITICAL = 3"

record vgik_event_t =
  ev_type :: vgik_event_type_t
  priority :: vgik_event_priority_t
  timestamp :: "64 word"
  data :: "8 word list option"
  data_size :: nat
  source :: string

record event_subscription_t =
  sub_id :: c_int
  sub_type :: vgik_event_type_t
  handler :: "nat option"
  sub_user_data :: nat
  active :: bool

text \<open>The lines written to \<^verbatim>\<open>stderr\<close>.\<close>

datatype ev_message =
    Queue_full_dropping vgik_event_type_t
  | Event_system_initialized
  | Subscription_created c_int vgik_event_type_t
  | No_free_subscription_slots
  | Subscription_removed c_int
  | Subscription_not_found c_int

text \<open>
  \<open>dispatched\<close> is not a field of the C struct: it records every handler invocation, in
  order, as the slot of the subscription and the event passed. Nothing in the model reads it.
\<close>

record events_state =
  ev_initialized :: bool
  subscriptions :: "event_subscription_t list"
  next_subscription_id :: c_int
  queue :: "vgik_event_t list"
  queue_size :: nat
  node_pool :: nat
  stderr_out :: "ev_message list"
  dispatched :: "(nat \<times> vgik_event_t) list"

record 'w ev_env =
  handler_fn :: "nat \<Rightarrow> vgik_event_t \<Rightarrow> nat \<Rightarrow> 'w \<Rightarrow> 'w"
  get_timestamp :: "'w \<Rightarrow> 64 word"
  malloc :: "'w \<Rightarrow> bool \<times> 'w"

definition VGIK_EVENTS_MAX_SUBSCRIPTIONS :: nat where
  "VGIK_EVENTS_MAX_SUBSCRIPTIONS = 128"

definition VGIK_EVENTS_QUEUE_SIZE :: nat where
  "VGIK_EVENTS_QUEUE_SIZE = 256"

text \<open>The static initialiser of \<^verbatim>\<open>g_events\<close>; the subscription table is zeroed.\<close>

definition g_events :: events_state where
  "g_events =
     \<lparr>ev_initialized = False,
      subscriptions = replicate VGIK_EVENTS_MAX_SUBSCRIPTIONS
        \<lparr>sub_id = 0, sub_type = VGIK_EVENT_NETWORK_INTERFACE_UP, handler = None,
         sub_user_data = 0, active = False\<rparr>,
      next_subscription_id = 1, queue = [], queue_size = 0, node_pool = 0,
      stderr_out = [], dispatched = []\<rparr>"

definition create_queue_node :: "'w ev_env \<Rightarrow> events_state \<times> 'w \<Rightarrow> bool \<times> events_state \<times> 'w" where
  "create_queue_node env sw =
     (if node_pool (fst sw) > 0
      then (True, (fst sw)\<lparr>node_pool := node_pool (fst sw) - 1\<rparr>, snd sw)
      else (fst (malloc env (snd sw)), fst sw, snd (malloc env (snd sw))))"

text \<open>
  The search for the place of the new node: it goes after the entries at the head whose
  priority is at least its own, before the first entry of lower priority.
\<close>

fun insert_node :: "vgik_event_t \<Rightarrow> vgik_event_t list \<Rightarrow> vgik_event_t list" where
  "insert_node node [] = [node]"
| "insert_node node (current # rest) =
     (if priority_value (priority current) \<ge> priority_value (priority node)
      then current # insert_node node rest
      else node # current # rest)"

definition enqueue_event :: "'w ev_env \<Rightarrow> vgik_event_t \<Rightarrow> events_state \<times> 'w \<Rightarrow> c_int \<times> events_state \<times> 'w" where
  "enqueue_event env event sw =
     (if queue_size (fst sw) \<ge> VGIK_EVENTS_QUEUE_SIZE
      then (- 1, (fst sw)\<lparr>stderr_out := stderr_out (fst sw) @ [Queue_full_dropping (ev_type event)]\<rparr>, snd sw)
      else
        (let n = create_queue_node env sw; s1 = fst (snd n); w1 = snd (snd n)
         in if \<not> fst n then (- 1, s1, w1)
            else
              (let stamped = event\<lparr>timestamp := get_timestamp env w1\<rparr>;
                   link = (\<lambda>node. s1\<lparr>queue := insert_node node (queue s1),
                                      queue_size := queue_size s1 + 1\<rparr>)
               in case data event of
                    Some bytes \<Rightarrow>
                      if data_size event > 0
                      then (if \<not> fst (malloc env w1) then (- 1, s1, snd (malloc env w1))
                            else (0, link (stamped\<lparr>data := Some (take (data_size event) bytes)\<rparr>),
                                  snd (malloc env w1)))
                      else (0, link (stamped\<lparr>data := None\<rparr>), w1)
                  | None \<Rightarrow> (0, link (stamped\<lparr>data := None\<rparr>), w1))))"

definition dequeue_event :: "events_state \<Rightarrow> (vgik_event_t \<times> events_state) option" where
  "dequeue_event s =
     (case queue s of
        [] \<Rightarrow> None
      | ev # rest \<Rightarrow>
          Some (ev, s\<lparr>queue := rest, queue_size := queue_size s - 1, node_pool := node_pool s + 1\<rparr>))"

definition vgik_events_init :: "events_state \<Rightarrow> c_int \<times> events_state" where
  "vgik_events_init s =
     (if ev_initialized s then (0, s)
      else (0, s\<lparr>ev_initialized := True, stderr_out := stderr_out s @ [Event_system_initialized]\<rparr>))"

fun first_free_slot :: "nat \<Rightarrow> event_subscription_t list \<Rightarrow> nat option" where
  "first_free_slot i [] = None"
| "first_free_slot i (sub # subs) = (if \<not> active sub then Some i else first_free_slot (Suc i) subs)"

definition vgik_event_subscribe ::
    "vgik_event_type_t \<Rightarrow> nat option \<Rightarrow> nat \<Rightarrow> events_state \<Rightarrow> c_int \<times> events_state" where
  "vgik_event_subscribe type h ud s =
     (if h = None \<or> \<not> ev_initialized s then (- 1, s)
      else case first_free_slot 0 (subscriptions s) of
             Some i \<Rightarrow>
               (next_subscription_id s,
                s\<lparr>subscriptions := (subscriptions s)
                     [i := \<lparr>sub_id = next_subscription_id s, sub_type = type, handler = h,
                            sub_user_data = ud, active = True\<rparr>],
                  next_subscription_id := next_subscription_id s + 1,
                  stderr_out := stderr_out s @ [Subscription_created (next_subscription_id s) type]\<rparr>)
           | None \<Rightarrow> (- 1, s\<lparr>stderr_out := stderr_out s @ [No_free_subscription_slots]\<rparr>))"

fun find_subscription :: "nat \<Rightarrow> event_subscription_t list \<Rightarrow> c_int \<Rightarrow> nat option" where
  "find_subscription i [] subscription_id = None"
| "find_subscription i (sub # subs) subscription_id =
     (if active sub \<and> sub_id sub = subscription_id then Some i
      else find_subscription (Suc i) subs subscription_id)"

definition vgik_event_unsubscribe :: "c_int \<Rightarrow> events_state \<Rightarrow> c_int \<times> events_state" where
  "vgik_event_unsubscribe subscription_id s =
     (case find_subscription 0 (subscriptions s) subscription_id of
        Some i \<Rightarrow>
          (0, s\<lparr>subscriptions := (subscriptions s)[i := (subscriptions s ! i)\<lparr>active := False\<rparr>],
                stderr_out := stderr_out s @ [Subscription_removed subscription_id]\<rparr>)
      | None \<Rightarrow> (- 1, s\<lparr>stderr_out := stderr_out s @ [Subscription_not_found subscription_id]\<rparr>))"

definition vgik_event_publish ::
    "'w ev_env \<Rightarrow> vgik_event_t option \<Rightarrow> events_state \<times> 'w \<Rightarrow> c_int \<times> events_state \<times> 'w" where
  "vgik_event_publish env event sw =
     (case event of
        None \<Rightarrow> (- 1, sw)
      | Some e \<Rightarrow>
          if \<not> ev_initialized (fst sw) then (- 1, sw)
          else (let r = enqueue_event env e sw
                in if fst r \<noteq> 0 then (- 1, snd r) else (0, snd r)))"

text \<open>
  The test of \<^verbatim>\<open>vgik_events_process\<close> on the type of a subscription: the subscription is
  skipped when its type is neither \<^verbatim>\<open>VGIK_EVENT_CUSTOM\<close> nor the type of the event.
\<close>

definition type_matches :: "vgik_event_type_t \<Rightarrow> vgik_event_type_t \<Rightarrow> bool" where
  "type_matches filter_type event_type =
     (\<not> (filter_type \<noteq> VGIK_EVENT_CUSTOM \<and> filter_type \<noteq> event_type))"

text \<open>The inner loop of \<^verbatim>\<open>vgik_events_process\<close> over the subscription table, from slot \<open>i\<close>.\<close>

fun dispatch_event ::
    "'w ev_env \<Rightarrow> vgik_event_t \<Rightarrow> nat \<Rightarrow> event_subscription_t list \<Rightarrow>
     (nat \<times> vgik_event_t) list \<times> 'w \<Rightarrow> (nat \<times> vgik_event_t) list \<times> 'w" where
  "dispatch_event env ev i [] hw = hw"
| "dispatch_event env ev i (sub # subs) hw =
     (if \<not> active sub then dispatch_event env ev (Suc i) subs hw
      else if \<not> type_matches (sub_type sub) (ev_type ev) then dispatch_event env ev (Suc i) subs hw
      else case handler sub of
             Some h \<Rightarrow>
               dispatch_event env ev (Suc i) subs
                 (fst hw @ [(i, ev)], handler_fn env h ev (sub_user_data sub) (snd hw))
           | None \<Rightarrow> dispatch_event env ev (Suc i) subs hw)"

text \<open>The outer loop: it runs until \<^verbatim>\<open>dequeue_event\<close> fails.\<close>

function events_process_loop ::
    "'w ev_env \<Rightarrow> c_int \<Rightarrow> events_state \<times> 'w \<Rightarrow> c_int \<times> events_state \<times> 'w" where
  "events_process_loop env processed sw =
     (case dequeue_event (fst sw) of
        None \<Rightarrow> (processed, sw)
      | Some (ev, s1) \<Rightarrow>
          (let hw = dispatch_event env ev 0 (subscriptions s1) (dispatched s1, snd sw)
           in events_process_loop env (processed + 1) (s1\<lparr>dispatched := fst hw\<rparr>, snd hw)))"
  by pat_completeness auto
termination
  by (relation "measure (\<lambda>(env, processed, sw). length (queue (fst sw)))")
     (auto simp: dequeue_event_def split: list.splits)

declare events_process_loop.simps [simp del]

definition vgik_events_process :: "'w ev_env \<Rightarrow> events_state \<times> 'w \<Rightarrow> c_int \<times> events_state \<times> 'w" where
  "vgik_events_process env sw =
     (if \<not> ev_initialized (fst sw) then (0, sw) else events_process_loop env 0 sw)"

definition vgik_events_queue_size :: "events_state \<Rightarrow> nat" where
  "vgik_events_queue_size s = queue_size s"

text \<open>
  Notions used to state the properties of the event system: the events passed to the
  handler of one subscription slot, in order; a queue in descending order of priority; a
  queued node that is the stored copy of a published event (\<^verbatim>\<open>enqueue_event\<close> replaces the
  timestamp and the payload pointer); a slot whose handler \<^verbatim>\<open>vgik_events_process\<close> calls for
  an event.
\<close>

definition calls_of_slot :: "nat \<Rightarrow> (nat \<times> vgik_event_t) list \<Rightarrow> vgik_event_t list" where
  "calls_of_slot i d = map snd (filter (\<lambda>p. fst p = i) d)"

definition descending :: "vgik_event_t list \<Rightarrow> bool" where
  "descending q = sorted_wrt (\<lambda>x y. priority_value (priority x) \<ge> priority_value (priority y)) q"

definition same_event :: "vgik_event_t \<Rightarrow> vgik_event_t \<Rightarrow> bool" where
  "same_event e node \<longleftrightarrow>
     ev_type node = ev_type e \<and> priority node = priority e \<and> source node = source e \<and>
     data_size node = data_size e"

definition slot_takes :: "event_subscription_t list \<Rightarrow> nat \<Rightarrow> vgik_event_t \<Rightarrow> bool" where
  "slot_takes subs i ev \<longleftrightarrow>
     i < length subs \<and> active (subs ! i) \<and> type_matches (sub_type (subs ! i)) (ev_type ev) \<and>
     handler (subs ! i) \<noteq> None"

text \<open>
  The effect on the world of a list of handler calls, each given as the slot of the
  subscription and the event: the handler of the slot is applied to the event and the
  user data of the slot, one call after the other. \<open>publish_each\<close> publishes a list of
  events one after the other and returns the value of each call.
\<close>

fun replay :: "'w ev_env \<Rightarrow> event_subscription_t list \<Rightarrow> (nat \<times> vgik_event_t) list \<Rightarrow> 'w \<Rightarrow> 'w" where
  "replay env subs [] w = w"
| "replay env subs (c # cs) w =
     replay env subs cs
       (case handler (subs ! fst c) of
          Some h \<Rightarrow> handler_fn env h (snd c) (sub_user_data (subs ! fst c)) w
        | None \<Rightarrow> w)"

fun publish_each ::
    "'w ev_env \<Rightarrow> vgik_event_t list \<Rightarrow> events_state \<times> 'w \<Rightarrow> c_int list \<times> events_state \<times> 'w" where
  "publish_each env [] sw = ([], sw)"
| "publish_each env (e # es) sw =
     (let r = vgik_event_publish env (Some e) sw;
          rest = publish_each env es (snd r)
      in (fst r # fst rest, snd rest))"

section \<open>Runs of the service manager\<close>

text \<open>
  The fields that the restart policy reads and writes, and the relation between a service
  before and after one step of the manager that the policy allows: name and limit stay,
  and either the counter and the time of the last restart stay, or the counter goes up by
  one (modulo \<open>2 ^ 32\<close>, as \<^verbatim>\<open>restart_count++\<close> does) and the limit was not reached.
\<close>

definition restart_fields :: "vgik_service_t \<Rightarrow> string option \<times> 32 word \<times> 32 word \<times> 64 word" where
  "restart_fields s = (name s, max_restart_attempts s, restart_count s, last_restart_time s)"







section \<open>Example configurations\<close>

text \<open>
  An environment whose world is the reading of the clock: the callback at address 0
  succeeds, every other callback fails, and no callback changes the world.
\<close>

definition test_env :: "64 word sm_env" where
  "test_env =
     \<lparr>start_fn = (\<lambda>f ud w. (if f = 0 then 0 else - 1, w)),
      stop_fn = (\<lambda>f ud w. (if f = 0 then 0 else - 1, w)),
      health_fn = (\<lambda>f ud w. (True, w)),
      get_timestamp_ms = (\<lambda>w. w)\<rparr>"

definition test_service :: "string \<Rightarrow> nat option \<Rightarrow> string option list \<Rightarrow> vgik_service_t" where
  "test_service n f ds =
     \<lparr>name = Some n, start_cb = f, stop_cb = Some 0, health_cb = None, user_data = 0,
      dependencies = Some ds, auto_restart = False, restart_delay_ms = 0,
      max_restart_attempts = 0, restart_count = 0, state = VGIK_SERVICE_STATE_STOPPED,
      start_time = 0, last_restart_time = 0\<rparr>"

definition test_manager :: "vgik_service_t list \<Rightarrow> service_manager" where
  "test_manager ss = \<lparr>initialized = True, services = ss, history = []\<rparr>"

definition chain_manager :: service_manager where
  "chain_manager =
     test_manager [test_service ''A'' (Some 0) [Some ''B''],
                   test_service ''B'' (Some 0) [Some ''C''],
                   test_service ''C'' (Some 0) []]"

text \<open>
  For the event system: allocation always succeeds, handlers do nothing, the world is the
  reading of the clock. The bus is initialised and has one subscriber, of type
  \<^verbatim>\<open>VGIK_EVENT_CUSTOM\<close>, in slot 0.
\<close>

definition test_ev_env :: "64 word ev_env" where
  "test_ev_env =
     \<lparr>handler_fn = (\<lambda>h ev ud w. w), get_timestamp = (\<lambda>w. w), malloc = (\<lambda>w. (True, w))\<rparr>"

definition test_event :: "vgik_event_type_t \<Rightarrow> vgik_event_priority_t \<Rightarrow> string \<Rightarrow> vgik_event_t" where
  "test_event t p src =
     \<lparr>ev_type = t, priority = p, timestamp = 0, data = None, data_size = 0, source = src\<rparr>"

definition test_bus :: events_state where
  "test_bus = snd (vgik_event_subscribe VGIK_EVENT_CUSTOM (Some 0) 0 (snd (vgik_events_init g_events)))"

definition published :: "vgik_event_t list \<Rightarrow> events_state" where
  "published es =
     fst (snd (fold (\<lambda>e sw. vgik_event_publish test_ev_env (Some e) (snd sw)) es (0, test_bus, 1)))"

definition first_high :: vgik_event_t where
  "first_high = test_event VGIK_EVENT_SERVICE_STARTED VGIK_EVENT_PRIORITY_HIGH ''first''"

definition second_low :: vgik_event_t where
  "second_low = test_event VGIK_EVENT_CONFIG_CHANGED VGIK_EVENT_PRIORITY_LOW ''second''"

definition third_high :: vgik_event_t where
  "third_high = test_event VGIK_EVENT_SERVICE_CRASHED VGIK_EVENT_PRIORITY_HIGH ''third''"

definition full_bus :: events_state where
  "full_bus = published (replicate 256 (test_event VGIK_EVENT_CUSTOM VGIK_EVENT_PRIORITY_NORMAL ''old''))"

definition two_event_bus :: events_state where
  "two_event_bus =
     test_bus\<lparr>queue := [test_event VGIK_EVENT_SERVICE_CRASHED VGIK_EVENT_PRIORITY_CRITICAL ''svc'',
                         test_event VGIK_EVENT_CONFIG_CHANGED VGIK_EVENT_PRIORITY_NORMAL ''cfg''],
              queue_size := 2\<rparr>"

text \<open>
  An environment whose handlers leave a trace in the world: the world is the reading of
  the clock and the list of the calls made, each as the address of the handler and the
  event passed.
\<close>

definition recording_env :: "(64 word \<times> (nat \<times> vgik_event_t) list) ev_env" where
  "recording_env =
     \<lparr>handler_fn = (\<lambda>h ev ud w. (fst w, snd w @ [(h, ev)])),
      get_timestamp = fst,
      malloc = (\<lambda>w. (True, w))\<rparr>"

definition fourth_normal :: vgik_event_t where
  "fourth_normal = test_event VGIK_EVENT_SYSTEM_REBOOT VGIK_EVENT_PRIORITY_NORMAL ''fourth''"

text \<open>
  For the restart policy: a manager with the single service \<open>net\<close>, whose start callback
  (at address 1) always fails, with automatic restart; the effects of a failed start and of
  a failed restart attempt; the manager after \<open>n\<close> failed attempts when there is neither a
  limit nor a delay and the clock reads 7.
\<close>

definition failing_service ::
    "32 word \<Rightarrow> 32 word \<Rightarrow> 32 word \<Rightarrow> 64 word \<Rightarrow> vgik_service_state_t \<Rightarrow> vgik_service_t" where
  "failing_service mx delay c l st =
     \<lparr>name = Some ''net'', start_cb = Some 1, stop_cb = Some 0, health_cb = None, user_data = 0,
      dependencies = None, auto_restart = True, restart_delay_ms = delay,
      max_restart_attempts = mx, restart_count = c, state = st,
      start_time = 0, last_restart_time = l\<rparr>"

definition lone :: "vgik_service_t \<Rightarrow> sm_effect list \<Rightarrow> service_manager" where
  "lone s h = \<lparr>initialized = True, services = [s], history = h\<rparr>"






definition three_services :: service_manager where
  "three_services =
     test_manager [test_service ''dns'' (Some 0) [],
                   (test_service ''web'' (Some 0) [])\<lparr>state := VGIK_SERVICE_STATE_RUNNING, start_time := 3\<rparr>,
                   test_service ''ntp'' (Some 0) []]"

text \<open>
  Two services: \<open>app\<close>, failed, restarted automatically, depending on \<open>net\<close>; and \<open>net\<close>,
  failed, whose restart counter has reached its limit and whose start callback succeeds.
\<close>

definition dependent_pair :: service_manager where
  "dependent_pair =
     test_manager
       [(test_service ''app'' (Some 0) [Some ''net''])
          \<lparr>auto_restart := True, max_restart_attempts := 3, state := VGIK_SERVICE_STATE_FAILED\<rparr>,
        (failing_service 3 1000 3 7000 VGIK_SERVICE_STATE_FAILED)\<lparr>start_cb := Some 0\<rparr>]"

section \<open>Properties of the service manager\<close>

subsection \<open>Lookup and state assignment\<close>

lemma find_from_Some:
  "find_from k ss n = Some i \<Longrightarrow> \<exists>j. i = k + j \<and> j < length ss \<and> name (ss ! j) = Some n"
proof (induction ss arbitrary: k)
  case Nil
  then show ?case by simp
next
  case (Cons s ss)
  show ?case
  proof (cases "name s = Some n")
    case True
    with Cons.prems show ?thesis by auto
  next
    case False
    with Cons.prems have "find_from (Suc k) ss n = Some i" by simp
    from Cons.IH [OF this] obtain j where "i = Suc k + j" "j < length ss" "name (ss ! j) = Some n"
      by blast
    then have "i = k + Suc j \<and> Suc j < length (s # ss) \<and> name ((s # ss) ! Suc j) = Some n"
      by simp
    then show ?thesis by blast
  qed
qed

lemma find_service_Some:
  assumes "find_service m nm = Some i"
  shows "i < length (services m)" and "name (services m ! i) = nm"
  using assms find_from_Some [of 0 "services m" _ i]
  by (auto simp: find_service_def split: option.splits)

lemma find_from_names:
  "map name ss = map name ss' \<Longrightarrow> find_from k ss n = find_from k ss' n"
proof (induction ss arbitrary: ss' k)
  case Nil
  then show ?case by simp
next
  case (Cons s ss)
  then obtain t ts where "ss' = t # ts" by (cases ss') auto
  with Cons show ?case by auto
qed

lemma find_service_names:
  "map name (services m) = map name (services m') \<Longrightarrow> find_service m nm = find_service m' nm"
  by (auto simp: find_service_def split: option.splits intro: find_from_names)

lemma find_from_None_iff:
  "find_from k ss n = None \<longleftrightarrow> (\<forall>s\<in>set ss. name s \<noteq> Some n)"
  by (induction ss arbitrary: k) auto

lemma find_service_None_iff:
  "find_service m nm = None \<longleftrightarrow> nm = None \<or> (\<forall>s\<in>set (services m). name s \<noteq> nm)"
  by (cases nm) (auto simp: find_service_def find_from_None_iff)

lemma check_deps_iff:
  "check_deps m ds \<longleftrightarrow>
     (\<forall>d\<in>set ds. \<exists>j. find_service m d = Some j \<and> state (services m ! j) = VGIK_SERVICE_STATE_RUNNING)"
  by (induction ds) (auto split: option.splits)

lemma names_set_state [simp]:
  "map name (services (set_state i st m)) = map name (services m)"
  by (cases "i < length (services m)") (simp_all add: set_state_def map_update list_update_same_conv list_update_beyond)

lemma find_service_set_state [simp]:
  "find_service (set_state i st m) nm = find_service m nm"
  by (rule find_service_names) simp

lemma length_set_state [simp]: "length (services (set_state i st m)) = length (services m)"
  by (simp add: set_state_def)

lemma history_set_state [simp]:
  "history (set_state i st m) = history m @ [State_set (name (services m ! i)) st]"
  by (simp add: set_state_def)

lemma nth_set_state:
  "services (set_state i st m) ! j =
     (if j = i \<and> i < length (services m) then (services m ! i)\<lparr>state := st\<rparr> else services m ! j)"
  by (cases "i < length (services m)") (simp_all add: set_state_def nth_list_update list_update_beyond)

text \<open>
  Claim C9: \<^verbatim>\<open>vgik_service_get_state\<close> returns FAILED when no service has the name, which is
  also what it returns for a registered service whose state is FAILED.
\<close>

theorem get_state_unknown_is_FAILED:
  "(find_service m nm = None \<longrightarrow> vgik_service_get_state m nm = VGIK_SERVICE_STATE_FAILED) \<and>
   (find_service m' nm = Some i \<and> state (services m' ! i) = VGIK_SERVICE_STATE_FAILED
      \<longrightarrow> vgik_service_get_state m' nm = VGIK_SERVICE_STATE_FAILED)"
  by (auto simp: vgik_service_get_state_def split: option.splits)

theorem get_state_unknown_is_FAILED_witness:
  "vgik_service_get_state (test_manager []) (Some ''net'') = VGIK_SERVICE_STATE_FAILED \<and>
   vgik_service_get_state
     (test_manager [(test_service ''net'' (Some 1) [])\<lparr>state := VGIK_SERVICE_STATE_FAILED\<rparr>])
     (Some ''net'') = VGIK_SERVICE_STATE_FAILED"
proof -
  let ?m' = "test_manager [(test_service ''net'' (Some 1) [])\<lparr>state := VGIK_SERVICE_STATE_FAILED\<rparr>]"
  have h1: "find_service (test_manager []) (Some ''net'') = None"
    by (simp add: test_manager_def find_service_def)
  have h2: "find_service ?m' (Some ''net'') = Some 0 \<and>
            state (services ?m' ! 0) = VGIK_SERVICE_STATE_FAILED"
    by (simp add: test_manager_def test_service_def find_service_def)
  show ?thesis
    using h1 h2 get_state_unknown_is_FAILED [of "test_manager []" "Some ''net''" ?m' 0]
    by simp
qed

lemma start_service_no_cb:
  assumes "i < length (services m)" "start_cb (services m ! i) = None"
  shows "start_service env i (m, w) =
    (0, m\<lparr>services := (services m)[i := (services m ! i)\<lparr>state := VGIK_SERVICE_STATE_RUNNING,
              start_time := get_timestamp_ms env w\<rparr>],
          history := history m @ [State_set (name (services m ! i)) VGIK_SERVICE_STATE_STARTING,
                                  State_set (name (services m ! i)) VGIK_SERVICE_STATE_RUNNING]\<rparr>, w)"
  using assms by (simp add: start_service_def Let_def set_state_def)

lemma start_service_cb:
  assumes "i < length (services m)" "start_cb (services m ! i) = Some f"
  shows "start_service env i (m, w) =
    (let r = start_fn env f (user_data (services m ! i)) w;
         nm = name (services m ! i)
     in (fst r,
         m\<lparr>services := (services m)[i :=
              (if fst r = 0
               then (services m ! i)\<lparr>state := VGIK_SERVICE_STATE_RUNNING,
                                      start_time := get_timestamp_ms env (snd r)\<rparr>
               else (services m ! i)\<lparr>state := VGIK_SERVICE_STATE_FAILED\<rparr>)],
           history := history m @ [State_set nm VGIK_SERVICE_STATE_STARTING, Start_called nm,
              State_set nm (if fst r = 0 then VGIK_SERVICE_STATE_RUNNING else VGIK_SERVICE_STATE_FAILED)]\<rparr>,
         snd r))"
  using assms by (simp add: start_service_def Let_def set_state_def)

lemma start_checked:
  assumes "find_service m nm = Some i"
    and "state (services m ! i) \<noteq> VGIK_SERVICE_STATE_RUNNING"
    and "state (services m ! i) \<noteq> VGIK_SERVICE_STATE_STARTING"
    and "check_dependencies m i"
  shows "vgik_service_start (Suc k) env nm (m, w) = Some (start_service env i (m, w))"
  using assms by simp

text \<open>
  Claim C2: starting a registered, stopped service that has no dependencies and a start
  callback sets it to STARTING and calls the callback. The call returns what the callback
  returned; on 0 the service ends RUNNING with the time read after the callback as its
  start time, otherwise it ends FAILED.
\<close>

theorem start_without_dependencies:
  assumes "find_service m nm = Some i"
    and "dependencies (services m ! i) = None \<or> dependencies (services m ! i) = Some []"
    and "start_cb (services m ! i) = Some f"
    and "state (services m ! i) = VGIK_SERVICE_STATE_STOPPED"
  shows "\<exists>m'. vgik_service_start (Suc k) env nm (m, w) =
           Some (fst (start_fn env f (user_data (services m ! i)) w), m',
                 snd (start_fn env f (user_data (services m ! i)) w)) \<and>
         history m' = history m @
           [State_set nm VGIK_SERVICE_STATE_STARTING, Start_called nm,
            State_set nm (if fst (start_fn env f (user_data (services m ! i)) w) = 0
                          then VGIK_SERVICE_STATE_RUNNING else VGIK_SERVICE_STATE_FAILED)] \<and>
         find_service m' nm = Some i \<and>
         (if fst (start_fn env f (user_data (services m ! i)) w) = 0
          then state (services m' ! i) = VGIK_SERVICE_STATE_RUNNING \<and>
               start_time (services m' ! i) =
                 get_timestamp_ms env (snd (start_fn env f (user_data (services m ! i)) w))
          else state (services m' ! i) = VGIK_SERVICE_STATE_FAILED)"
proof -
  have len: "i < length (services m)" and nm: "name (services m ! i) = nm"
    using find_service_Some [OF assms(1)] by simp_all
  have chk: "check_dependencies m i"
    using assms(2) by (auto simp: check_dependencies_def)
  have "vgik_service_start (Suc k) env nm (m, w) = Some (start_service env i (m, w))"
    using assms(1,4) chk by (intro start_checked) simp_all
  then show ?thesis
    using len nm assms(1,3)
    apply (simp add: start_service_cb Let_def)
    apply (intro conjI impI)
    apply (subst find_service_names [where m' = m]; simp add: map_update list_update_same_conv)+
    done
qed

theorem start_without_dependencies_witness:
  "\<exists>m'. vgik_service_start (Suc 0) test_env (Some ''net'')
            (test_manager [test_service ''net'' (Some 0) []], 5) = Some (0, m', 5) \<and>
         history m' = [State_set (Some ''net'') VGIK_SERVICE_STATE_STARTING, Start_called (Some ''net''),
                       State_set (Some ''net'') VGIK_SERVICE_STATE_RUNNING] \<and>
         state (services m' ! 0) = VGIK_SERVICE_STATE_RUNNING \<and> start_time (services m' ! 0) = 5"
proof -
  let ?m = "test_manager [test_service ''net'' (Some 0) []]"
  have h: "find_service ?m (Some ''net'') = Some 0"
    "dependencies (services ?m ! 0) = None \<or> dependencies (services ?m ! 0) = Some []"
    "start_cb (services ?m ! 0) = Some 0"
    "state (services ?m ! 0) = VGIK_SERVICE_STATE_STOPPED"
    by (simp_all add: test_manager_def test_service_def find_service_def)
  show ?thesis
    using start_without_dependencies [OF h, of 0 test_env 5]
    by (auto simp: test_env_def test_manager_def test_service_def simp del: vgik_service_start.simps)
qed

text \<open>
  Claim C10: starting a stopped service whose start callback is NULL and whose
  dependencies are all registered and RUNNING calls no callback (the world is unchanged),
  sets the state to STARTING and then to RUNNING, returns 0 and records the start time.
\<close>

theorem start_null_callback:
  assumes "find_service m nm = Some i"
    and "state (services m ! i) = VGIK_SERVICE_STATE_STOPPED"
    and "start_cb (services m ! i) = None"
    and "\<forall>ds d. dependencies (services m ! i) = Some ds \<and> d \<in> set ds \<longrightarrow>
           (\<exists>j. find_service m d = Some j \<and> state (services m ! j) = VGIK_SERVICE_STATE_RUNNING)"
  shows "\<exists>m'. vgik_service_start (Suc k) env nm (m, w) = Some (0, m', w) \<and>
         history m' = history m @
           [State_set nm VGIK_SERVICE_STATE_STARTING, State_set nm VGIK_SERVICE_STATE_RUNNING] \<and>
         state (services m' ! i) = VGIK_SERVICE_STATE_RUNNING \<and>
         start_time (services m' ! i) = get_timestamp_ms env w"
proof -
  have len: "i < length (services m)" and nm: "name (services m ! i) = nm"
    using find_service_Some [OF assms(1)] by simp_all
  have chk: "check_dependencies m i"
    using assms(4) by (auto simp: check_dependencies_def check_deps_iff split: option.splits)
  have "vgik_service_start (Suc k) env nm (m, w) = Some (start_service env i (m, w))"
    using assms(1,2) chk by (intro start_checked) simp_all
  then show ?thesis
    using len nm assms(3) by (simp add: start_service_no_cb)
qed

theorem start_null_callback_witness:
  "\<exists>m'. vgik_service_start (Suc 0) test_env (Some ''app'')
            (test_manager [(test_service ''db'' (Some 1) [])\<lparr>state := VGIK_SERVICE_STATE_RUNNING\<rparr>,
                           test_service ''app'' None [Some ''db'']], 7) = Some (0, m', 7) \<and>
         history m' = [State_set (Some ''app'') VGIK_SERVICE_STATE_STARTING,
                       State_set (Some ''app'') VGIK_SERVICE_STATE_RUNNING] \<and>
         state (services m' ! 1) = VGIK_SERVICE_STATE_RUNNING \<and> start_time (services m' ! 1) = 7"
proof -
  let ?m = "test_manager [(test_service ''db'' (Some 1) [])\<lparr>state := VGIK_SERVICE_STATE_RUNNING\<rparr>,
                          test_service ''app'' None [Some ''db'']]"
  have h: "find_service ?m (Some ''app'') = Some 1"
    "state (services ?m ! 1) = VGIK_SERVICE_STATE_STOPPED"
    "start_cb (services ?m ! 1) = None"
    "\<forall>ds d. dependencies (services ?m ! 1) = Some ds \<and> d \<in> set ds \<longrightarrow>
           (\<exists>j. find_service ?m d = Some j \<and> state (services ?m ! j) = VGIK_SERVICE_STATE_RUNNING)"
    by (simp_all add: test_manager_def test_service_def find_service_def)
  show ?thesis
    using start_null_callback [OF h, of 0 test_env 7]
    by (auto simp: test_env_def test_manager_def test_service_def simp del: vgik_service_start.simps)
qed

subsection \<open>Starting a chain of dependencies\<close>

lemma start_calls_append [simp]: "start_calls (xs @ ys) = start_calls xs @ start_calls ys"
  by (induction xs rule: start_calls.induct) simp_all

lemma start_calls_set_state [simp]:
  "start_calls (history (set_state i st m)) = start_calls (history m)"
  by simp

lemma state_set_state [simp]:
  "i < length (services m) \<Longrightarrow> state (services (set_state i st m) ! i) = st"
  by (simp add: nth_set_state)

lemma other_set_state [simp]:
  "j \<noteq> i \<Longrightarrow> services (set_state i st m) ! j = services m ! j"
  by (simp add: nth_set_state)

lemma start_service_cb_props:
  assumes "i < length (services m)" and "start_cb (services m ! i) = Some f"
  obtains m' where
    "start_service env i (m, w) =
       (fst (start_fn env f (user_data (services m ! i)) w), m',
        snd (start_fn env f (user_data (services m ! i)) w))"
    and "map name (services m') = map name (services m)"
    and "length (services m') = length (services m)"
    and "\<And>j. j \<noteq> i \<Longrightarrow> services m' ! j = services m ! j"
    and "state (services m' ! i) =
           (if fst (start_fn env f (user_data (services m ! i)) w) = 0
            then VGIK_SERVICE_STATE_RUNNING else VGIK_SERVICE_STATE_FAILED)"
    and "start_calls (history m') = start_calls (history m) @ [name (services m ! i)]"
proof -
  let ?r = "start_service env i (m, w)"
  have "?r = (fst (start_fn env f (user_data (services m ! i)) w), fst (snd ?r),
        snd (start_fn env f (user_data (services m ! i)) w))"
    using assms by (simp add: start_service_cb Let_def)
  moreover have "map name (services (fst (snd ?r))) = map name (services m)"
    using assms by (simp add: start_service_cb Let_def map_update list_update_same_conv)
  moreover have "length (services (fst (snd ?r))) = length (services m)"
    using assms by (simp add: start_service_cb Let_def)
  moreover have "\<And>j. j \<noteq> i \<Longrightarrow> services (fst (snd ?r)) ! j = services m ! j"
    using assms by (simp add: start_service_cb Let_def)
  moreover have "state (services (fst (snd ?r)) ! i) =
           (if fst (start_fn env f (user_data (services m ! i)) w) = 0
            then VGIK_SERVICE_STATE_RUNNING else VGIK_SERVICE_STATE_FAILED)"
    using assms by (simp add: start_service_cb Let_def)
  moreover have "start_calls (history (fst (snd ?r))) = start_calls (history m) @ [name (services m ! i)]"
    using assms by (simp add: start_service_cb Let_def)
  ultimately show thesis using that by blast
qed

lemma start_with_one_dependency:
  assumes "find_service m nm = Some i"
    and "state (services m ! i) = VGIK_SERVICE_STATE_STOPPED"
    and "dependencies (services m ! i) = Some [d]"
    and "\<not> check_dependencies m i"
    and "vgik_service_start k env d (m, w) = Some (r, m1, w1)"
  shows "vgik_service_start (Suc k) env nm (m, w) =
           Some (if r \<noteq> 0 then (- 1, set_state i VGIK_SERVICE_STATE_FAILED m1, w1)
                 else start_service env i (m1, w1))"
  using assms by simp

text \<open>
  Claim C1: with A depending on B, B on C, C on nothing, all three registered, stopped and
  with a start callback, starting A calls the start callbacks of C, B and A in this order,
  stopping after the first one that fails. All three services end RUNNING exactly when the
  three callbacks return 0, each called in the world the one before left; the call returns
  0 in that case only. A recursion depth of three suffices.
\<close>

theorem start_dependency_chain:
  assumes A: "find_service m (Some A) = Some a"
      "dependencies (services m ! a) = Some [Some B]"
      "state (services m ! a) = VGIK_SERVICE_STATE_STOPPED"
      "start_cb (services m ! a) = Some fa"
    and B: "find_service m (Some B) = Some b"
      "dependencies (services m ! b) = Some [Some C]"
      "state (services m ! b) = VGIK_SERVICE_STATE_STOPPED"
      "start_cb (services m ! b) = Some fb"
    and C: "find_service m (Some C) = Some c"
      "dependencies (services m ! c) = None \<or> dependencies (services m ! c) = Some []"
      "state (services m ! c) = VGIK_SERVICE_STATE_STOPPED"
      "start_cb (services m ! c) = Some fc"
    and rc: "rc = start_fn env fc (user_data (services m ! c)) w"
    and rb: "rb = start_fn env fb (user_data (services m ! b)) (snd rc)"
    and ra: "ra = start_fn env fa (user_data (services m ! a)) (snd rb)"
  shows "\<exists>ret m' w'.
     vgik_service_start (Suc (Suc (Suc k))) env (Some A) (m, w) = Some (ret, m', w') \<and>
     start_calls (history m') = start_calls (history m) @
       (if fst rc \<noteq> 0 then [Some C]
        else if fst rb \<noteq> 0 then [Some C, Some B] else [Some C, Some B, Some A]) \<and>
     (state (services m' ! a) = VGIK_SERVICE_STATE_RUNNING \<and>
      state (services m' ! b) = VGIK_SERVICE_STATE_RUNNING \<and>
      state (services m' ! c) = VGIK_SERVICE_STATE_RUNNING
        \<longleftrightarrow> fst rc = 0 \<and> fst rb = 0 \<and> fst ra = 0) \<and>
     (ret = 0 \<longleftrightarrow> fst rc = 0 \<and> fst rb = 0 \<and> fst ra = 0)"
proof -
  note [simp del] = vgik_service_start.simps
  have la: "a < length (services m)" and na: "name (services m ! a) = Some A"
    using find_service_Some [OF A(1)] by simp_all
  have lb: "b < length (services m)" and nb: "name (services m ! b) = Some B"
    using find_service_Some [OF B(1)] by simp_all
  have lc: "c < length (services m)" and nc: "name (services m ! c) = Some C"
    using find_service_Some [OF C(1)] by simp_all
  have bc: "b \<noteq> c" and ac: "a \<noteq> c"
    using A(2) B(2) C(2) by auto
  have ab: "a \<noteq> b"
    using A(2) B(1,2) C(1) bc by auto
  have chk_c: "check_dependencies m c"
    using C(2) by (auto simp: check_dependencies_def)
  have chk_b: "\<not> check_dependencies m b"
    using B(2) C(1,3) by (simp add: check_dependencies_def)
  have chk_a: "\<not> check_dependencies m a"
    using A(2) B(1,3) by (simp add: check_dependencies_def)
  obtain mC where mC: "start_service env c (m, w) = (fst rc, mC, snd rc)"
      "map name (services mC) = map name (services m)"
      "length (services mC) = length (services m)"
      "\<And>j. j \<noteq> c \<Longrightarrow> services mC ! j = services m ! j"
      "state (services mC ! c) =
         (if fst rc = 0 then VGIK_SERVICE_STATE_RUNNING else VGIK_SERVICE_STATE_FAILED)"
      "start_calls (history mC) = start_calls (history m) @ [Some C]"
    using start_service_cb_props [OF lc C(4), of env w] nc unfolding rc by metis
  have sC: "vgik_service_start (Suc k) env (Some C) (m, w) = Some (fst rc, mC, snd rc)"
    using start_checked [OF C(1) _ _ chk_c, of k env w] C(3) mC(1) by simp
  have find_mC: "find_service mC nm = find_service m nm" for nm
    by (rule find_service_names) (simp add: mC(2))
  show ?thesis
  proof (cases "fst rc = 0")
    case False
    have sB: "vgik_service_start (Suc (Suc k)) env (Some B) (m, w) =
        Some (- 1, set_state b VGIK_SERVICE_STATE_FAILED mC, snd rc)"
      using start_with_one_dependency [OF B(1) B(3) B(2) chk_b sC] False by simp
    have "vgik_service_start (Suc (Suc (Suc k))) env (Some A) (m, w) =
        Some (- 1, set_state a VGIK_SERVICE_STATE_FAILED
                     (set_state b VGIK_SERVICE_STATE_FAILED mC), snd rc)"
      using start_with_one_dependency [OF A(1) A(3) A(2) chk_a sB] by simp
    moreover have "state (services (set_state a VGIK_SERVICE_STATE_FAILED
                     (set_state b VGIK_SERVICE_STATE_FAILED mC)) ! c) = VGIK_SERVICE_STATE_FAILED"
      using ac bc mC(5) False by simp
    ultimately show ?thesis
      using False mC(6) by simp
  next
    case True
    have cbB: "b < length (services mC)" "start_cb (services mC ! b) = Some fb"
      using lb B(4) mC(3) mC(4) [OF bc] by simp_all
    obtain mB where mB: "start_service env b (mC, snd rc) = (fst rb, mB, snd rb)"
        "map name (services mB) = map name (services mC)"
        "length (services mB) = length (services mC)"
        "\<And>j. j \<noteq> b \<Longrightarrow> services mB ! j = services mC ! j"
        "state (services mB ! b) =
           (if fst rb = 0 then VGIK_SERVICE_STATE_RUNNING else VGIK_SERVICE_STATE_FAILED)"
        "start_calls (history mB) = start_calls (history mC) @ [Some B]"
      using start_service_cb_props [OF cbB, of env "snd rc"] nb mC(4) [OF bc] unfolding rb
      by metis
    have sB: "vgik_service_start (Suc (Suc k)) env (Some B) (m, w) = Some (fst rb, mB, snd rb)"
      using start_with_one_dependency [OF B(1) B(3) B(2) chk_b sC] True mB(1) by simp
    show ?thesis
    proof (cases "fst rb = 0")
      case False
      have "vgik_service_start (Suc (Suc (Suc k))) env (Some A) (m, w) =
          Some (- 1, set_state a VGIK_SERVICE_STATE_FAILED mB, snd rb)"
        using start_with_one_dependency [OF A(1) A(3) A(2) chk_a sB] False by simp
      moreover have "state (services (set_state a VGIK_SERVICE_STATE_FAILED mB) ! b) =
          VGIK_SERVICE_STATE_FAILED"
        using ab mB(5) False by simp
      ultimately show ?thesis
        using False True mB(6) mC(6) by simp
    next
      case rb0: True
      have cbA: "a < length (services mB)" "start_cb (services mB ! a) = Some fa"
        using la A(4) mC(3) mB(3) mC(4) [OF ac] mB(4) [OF ab] by simp_all
      obtain mA where mA: "start_service env a (mB, snd rb) = (fst ra, mA, snd ra)"
          "\<And>j. j \<noteq> a \<Longrightarrow> services mA ! j = services mB ! j"
          "state (services mA ! a) =
             (if fst ra = 0 then VGIK_SERVICE_STATE_RUNNING else VGIK_SERVICE_STATE_FAILED)"
          "start_calls (history mA) = start_calls (history mB) @ [Some A]"
        using start_service_cb_props [OF cbA, of env "snd rb"] na mC(4) [OF ac] mB(4) [OF ab]
        unfolding ra by metis
      have "vgik_service_start (Suc (Suc (Suc k))) env (Some A) (m, w) = Some (fst ra, mA, snd ra)"
        using start_with_one_dependency [OF A(1) A(3) A(2) chk_a sB] rb0 mA(1) by simp
      moreover have "state (services mA ! b) = VGIK_SERVICE_STATE_RUNNING"
        using mA(2) [of b] ab mB(5) rb0 by simp
      moreover have "state (services mA ! c) = VGIK_SERVICE_STATE_RUNNING"
        using mA(2) [of c] ac mB(4) [of c] bc mC(5) True by simp
      ultimately show ?thesis
        using True rb0 mA(3,4) mB(6) mC(6) by simp
    qed
  qed
qed

theorem start_dependency_chain_witness:
  "\<exists>ret m' w'.
     vgik_service_start (Suc (Suc (Suc 0))) test_env (Some ''A'') (chain_manager, 5) = Some (ret, m', w') \<and>
     start_calls (history m') = [Some ''C'', Some ''B'', Some ''A''] \<and>
     state (services m' ! 0) = VGIK_SERVICE_STATE_RUNNING \<and>
     state (services m' ! 1) = VGIK_SERVICE_STATE_RUNNING \<and>
     state (services m' ! 2) = VGIK_SERVICE_STATE_RUNNING \<and> ret = 0"
proof -
  have hA: "find_service chain_manager (Some ''A'') = Some 0"
      "dependencies (services chain_manager ! 0) = Some [Some ''B'']"
      "state (services chain_manager ! 0) = VGIK_SERVICE_STATE_STOPPED"
      "start_cb (services chain_manager ! 0) = Some 0"
    by (simp_all add: chain_manager_def test_manager_def test_service_def find_service_def)
  have hB: "find_service chain_manager (Some ''B'') = Some 1"
      "dependencies (services chain_manager ! 1) = Some [Some ''C'']"
      "state (services chain_manager ! 1) = VGIK_SERVICE_STATE_STOPPED"
      "start_cb (services chain_manager ! 1) = Some 0"
    by (simp_all add: chain_manager_def test_manager_def test_service_def find_service_def)
  have hC: "find_service chain_manager (Some ''C'') = Some 2"
      "dependencies (services chain_manager ! 2) = None \<or>
       dependencies (services chain_manager ! 2) = Some []"
      "state (services chain_manager ! 2) = VGIK_SERVICE_STATE_STOPPED"
      "start_cb (services chain_manager ! 2) = Some 0"
    by (simp_all add: chain_manager_def test_manager_def test_service_def find_service_def)
  have h0: "history chain_manager = []"
    by (simp add: chain_manager_def test_manager_def)
  show ?thesis
    using start_dependency_chain [OF hA hB hC refl refl refl, of 0 test_env 5]
    by (auto simp: h0 test_env_def simp del: vgik_service_start.simps)
qed

subsection \<open>The restart policy\<close>

lemma restart_fields_state [simp]:
  "restart_fields (s\<lparr>state := st\<rparr>) = restart_fields s"
  "restart_fields (s\<lparr>start_time := t\<rparr>) = restart_fields s"
  by (simp_all add: restart_fields_def)

lemma map_update_same:
  "f y = f (xs ! i) \<Longrightarrow> map f (xs[i := y]) = map f xs"
  by (cases "i < length xs") (simp_all add: map_update list_update_same_conv list_update_beyond)

lemma restart_fields_set_state [simp]:
  "map restart_fields (services (set_state i st m)) = map restart_fields (services m)"
  by (simp add: set_state_def map_update_same)






lemma services_is_healthy [simp]:
  "services (fst (snd (vgik_service_is_healthy env nm mw))) = services (fst mw)"
  by (simp add: vgik_service_is_healthy_def Let_def split: option.splits)













lemma lone_simps [simp]:
  "services (lone s h) = [s]" "initialized (lone s h)" "history (lone s h) = h"
  by (simp_all add: lone_def)

lemma failing_service_simps [simp]:
  "name (failing_service mx delay c l st) = Some ''net''"
  "auto_restart (failing_service mx delay c l st)"
  "state (failing_service mx delay c l st) = st"
  "max_restart_attempts (failing_service mx delay c l st) = mx"
  "restart_count (failing_service mx delay c l st) = c"
  "last_restart_time (failing_service mx delay c l st) = l"
  "restart_delay_ms (failing_service mx delay c l st) = delay"
  by (simp_all add: failing_service_def)
















text \<open>
  A tick can also start a service whose counter has reached its limit, without counting
  an attempt for it: as a dependency of another service that the tick restarts.
\<close>

lemma tick_starts_exhausted_dependency:
  "\<exists>m'. vgik_service_manager_process (Suc (Suc 0)) test_env (dependent_pair, 9000) = Some (m', 9000) \<and>
     restart_count (services dependent_pair ! 1) = max_restart_attempts (services dependent_pair ! 1) \<and>
     state (services dependent_pair ! 1) = VGIK_SERVICE_STATE_FAILED \<and>
     state (services m' ! 1) = VGIK_SERVICE_STATE_RUNNING \<and>
     restart_count (services m' ! 1) = 3 \<and> last_restart_time (services m' ! 1) = 7000 \<and>
     start_calls (history m') = [Some ''net'', Some ''app'']"
  by (simp add: vgik_service_manager_process_def dependent_pair_def test_manager_def test_service_def
        failing_service_def process_service_def vgik_service_is_healthy_def find_service_def
        check_dependencies_def start_service_def set_state_def test_env_def Let_def upt_rec)




subsection \<open>Unregistering\<close>

lemma stop_keeps_others:
  assumes "find_service m nm = Some i"
  shows "take i (services (fst (snd (vgik_service_stop env nm (m, w))))) = take i (services m)"
    and "drop (Suc i) (services (fst (snd (vgik_service_stop env nm (m, w))))) = drop (Suc i) (services m)"
  using assms
  by (simp_all add: vgik_service_stop_def Let_def set_state_def split: option.splits)

text \<open>
  Claim C7, as the code has it: unregistering a name that no service has returns -1 and
  changes nothing. Otherwise the call returns 0 and the table is the old one without the
  entry found, the others unchanged and in order; the service is stopped first (the
  result of the stop ignored) when its state is RUNNING, and in every other state no
  callback is called and no state is assigned.
\<close>

theorem unregister_removes_entry:
  "(nm = None \<or> (\<forall>s\<in>set (services m). name s \<noteq> nm) \<longrightarrow>
      vgik_service_unregister env nm (m, w) = (- 1, m, w)) \<and>
   (find_service m nm = Some i \<longrightarrow>
      (\<exists>m' w'. vgik_service_unregister env nm (m, w) = (0, m', w') \<and>
         services m' = take i (services m) @ drop (Suc i) (services m) \<and>
         (state (services m ! i) = VGIK_SERVICE_STATE_RUNNING \<longrightarrow>
            history m' = history (fst (snd (vgik_service_stop env nm (m, w)))) \<and>
            w' = snd (snd (vgik_service_stop env nm (m, w))) \<and>
            take 1 (drop (length (history m)) (history m')) = [State_set nm VGIK_SERVICE_STATE_STOPPING]) \<and>
         (state (services m ! i) \<noteq> VGIK_SERVICE_STATE_RUNNING \<longrightarrow>
            history m' = history m \<and> w' = w)))"
proof (intro conjI impI)
  assume "nm = None \<or> (\<forall>s\<in>set (services m). name s \<noteq> nm)"
  then have "find_service m nm = None" by (simp add: find_service_None_iff)
  then show "vgik_service_unregister env nm (m, w) = (- 1, m, w)"
    by (simp add: vgik_service_unregister_def)
next
  assume f: "find_service m nm = Some i"
  have nm: "name (services m ! i) = nm" and len: "i < length (services m)"
    using find_service_Some [OF f] by simp_all
  let ?st = "vgik_service_stop env nm (m, w)"
  let ?mw1 = "if state (services m ! i) = VGIK_SERVICE_STATE_RUNNING then snd ?st else (m, w)"
  let ?m' = "(fst ?mw1)\<lparr>services := take i (services (fst ?mw1)) @ drop (Suc i) (services (fst ?mw1))\<rparr>"
  have u: "vgik_service_unregister env nm (m, w) = (0, ?m', snd ?mw1)"
    using f by (simp add: vgik_service_unregister_def Let_def)
  have s: "services ?m' = take i (services m) @ drop (Suc i) (services m)"
    using stop_keeps_others [OF f, of env w] by simp
  have h1: "history ?m' = history (fst (snd ?st)) \<and> snd ?mw1 = snd (snd ?st) \<and>
      take 1 (drop (length (history m)) (history ?m')) = [State_set nm VGIK_SERVICE_STATE_STOPPING]"
    if "state (services m ! i) = VGIK_SERVICE_STATE_RUNNING"
    using that f nm by (simp add: vgik_service_stop_def Let_def set_state_def split: option.splits)
  have h2: "history ?m' = history m \<and> snd ?mw1 = w"
    if "state (services m ! i) \<noteq> VGIK_SERVICE_STATE_RUNNING"
    using that by simp
  show "\<exists>m' w'. vgik_service_unregister env nm (m, w) = (0, m', w') \<and>
         services m' = take i (services m) @ drop (Suc i) (services m) \<and>
         (state (services m ! i) = VGIK_SERVICE_STATE_RUNNING \<longrightarrow>
            history m' = history (fst (snd (vgik_service_stop env nm (m, w)))) \<and>
            w' = snd (snd (vgik_service_stop env nm (m, w))) \<and>
            take 1 (drop (length (history m)) (history m')) = [State_set nm VGIK_SERVICE_STATE_STOPPING]) \<and>
         (state (services m ! i) \<noteq> VGIK_SERVICE_STATE_RUNNING \<longrightarrow>
            history m' = history m \<and> w' = w)"
    using u s h1 h2 by blast
qed

theorem unregister_removes_entry_witness:
  "vgik_service_unregister test_env (Some ''vpn'') (three_services, 9) = (- 1, three_services, 9) \<and>
   (\<exists>m'. vgik_service_unregister test_env (Some ''web'') (three_services, 9) = (0, m', 9) \<and>
      services m' = [test_service ''dns'' (Some 0) [], test_service ''ntp'' (Some 0) []] \<and>
      history m' = [State_set (Some ''web'') VGIK_SERVICE_STATE_STOPPING, Stop_called (Some ''web''),
                    State_set (Some ''web'') VGIK_SERVICE_STATE_STOPPED]) \<and>
   (\<exists>m'. vgik_service_unregister test_env (Some ''dns'') (three_services, 9) = (0, m', 9) \<and>
      services m' = tl (services three_services) \<and> history m' = [])"
proof -
  have h1: "Some ''vpn'' = None \<or> (\<forall>s\<in>set (services three_services). name s \<noteq> Some ''vpn'')"
    by (simp add: three_services_def test_manager_def test_service_def)
  have h2: "find_service three_services (Some ''web'') = Some 1"
    by (simp add: three_services_def test_manager_def test_service_def find_service_def)
  have h3: "find_service three_services (Some ''dns'') = Some 0"
    by (simp add: three_services_def test_manager_def test_service_def find_service_def)
  have st: "vgik_service_stop test_env (Some ''web'') (three_services, 9) =
     (0, three_services\<lparr>services := (services three_services)[1 := test_service ''web'' (Some 0) []],
          history := [State_set (Some ''web'') VGIK_SERVICE_STATE_STOPPING, Stop_called (Some ''web''),
                    State_set (Some ''web'') VGIK_SERVICE_STATE_STOPPED]\<rparr>, 9)"
    by (simp add: vgik_service_stop_def three_services_def test_manager_def test_service_def
          find_service_def set_state_def test_env_def Let_def)
  note a = unregister_removes_entry [where nm = "Some ''vpn''" and m = three_services
      and env = test_env and w = 9, THEN conjunct1, THEN mp, OF h1]
  note b = unregister_removes_entry [where nm = "Some ''web''" and m = three_services
      and env = test_env and w = 9 and i = 1, THEN conjunct2, THEN mp, OF h2]
  note c = unregister_removes_entry [where nm = "Some ''dns''" and m = three_services
      and env = test_env and w = 9 and i = 0, THEN conjunct2, THEN mp, OF h3]
  have "\<exists>m'. vgik_service_unregister test_env (Some ''web'') (three_services, 9) = (0, m', 9) \<and>
      services m' = [test_service ''dns'' (Some 0) [], test_service ''ntp'' (Some 0) []] \<and>
      history m' = [State_set (Some ''web'') VGIK_SERVICE_STATE_STOPPING, Stop_called (Some ''web''),
                    State_set (Some ''web'') VGIK_SERVICE_STATE_STOPPED]"
    using b unfolding st by (auto simp: three_services_def test_manager_def test_service_def)
  moreover have "\<exists>m'. vgik_service_unregister test_env (Some ''dns'') (three_services, 9) = (0, m', 9) \<and>
      services m' = tl (services three_services) \<and> history m' = []"
    using c by (auto simp: three_services_def test_manager_def test_service_def drop_Suc)
  ultimately show ?thesis
    using a by blast
qed

text \<open>
  Against claim C7 as stated: a FAILED service is removed without its stop callback being
  called, although \<^verbatim>\<open>vgik_service_stop\<close> on it would call the callback.
\<close>

theorem unregister_failed_service_without_stop:
  "vgik_service_unregister test_env (Some ''net'')
       (lone (failing_service 3 1000 0 0 VGIK_SERVICE_STATE_FAILED) [], 0) =
     (0, \<lparr>initialized = True, services = [], history = []\<rparr>, 0) \<and>
   vgik_service_stop test_env (Some ''net'')
       (lone (failing_service 3 1000 0 0 VGIK_SERVICE_STATE_FAILED) [], 0) =
     (0, lone (failing_service 3 1000 0 0 VGIK_SERVICE_STATE_STOPPED)
           [State_set (Some ''net'') VGIK_SERVICE_STATE_STOPPING, Stop_called (Some ''net''),
            State_set (Some ''net'') VGIK_SERVICE_STATE_STOPPED], 0)"
  by (simp add: vgik_service_unregister_def vgik_service_stop_def lone_def failing_service_def
        find_service_def set_state_def test_env_def Let_def)

section \<open>Properties of the event system\<close>

lemma calls_of_slot_append [simp]:
  "calls_of_slot i (xs @ ys) = calls_of_slot i xs @ calls_of_slot i ys"
  by (simp add: calls_of_slot_def)

lemma calls_of_slot_single [simp]:
  "calls_of_slot i [(j, ev)] = (if j = i then [ev] else [])"
  by (simp add: calls_of_slot_def)

lemma calls_of_slot_Nil [simp]: "calls_of_slot i [] = []"
  by (simp add: calls_of_slot_def)

lemma dispatch_event_earlier_slot:
  "i < k \<Longrightarrow> calls_of_slot i (fst (dispatch_event env ev k subs hw)) = calls_of_slot i (fst hw)"
  by (induction subs arbitrary: k hw) (simp_all split: option.splits)

lemma dispatch_event_slot:
  "calls_of_slot (k + j) (fst (dispatch_event env ev k subs hw)) =
     calls_of_slot (k + j) (fst hw) @ (if slot_takes subs j ev then [ev] else [])"
proof (induction subs arbitrary: k j hw)
  case Nil
  then show ?case by (simp add: slot_takes_def)
next
  case (Cons sub subs)
  show ?case
  proof (cases j)
    case 0
    then show ?thesis
      by (simp add: dispatch_event_earlier_slot slot_takes_def split: option.splits)
  next
    case (Suc j')
    have "slot_takes (sub # subs) (Suc j') ev = slot_takes subs j' ev"
      by (simp add: slot_takes_def)
    then show ?thesis
      using Cons.IH [of "Suc k" j'] Suc by (simp split: option.splits)
  qed
qed

lemma events_process_loop_result:
  "events_process_loop env processed (s, w) = (r, s', w') \<Longrightarrow>
     calls_of_slot i (dispatched s') =
       calls_of_slot i (dispatched s) @ filter (slot_takes (subscriptions s) i) (queue s) \<and>
     queue s' = [] \<and> r = processed + of_nat (length (queue s)) \<and>
     subscriptions s' = subscriptions s"
proof (induction q \<equiv> "queue s" arbitrary: s w processed)
  case Nil
  from Nil(2) Nil(1) [symmetric] show ?case
    by (subst (asm) events_process_loop.simps) (simp add: dequeue_event_def)
next
  case (Cons ev rest)
  let ?s1 = "s\<lparr>queue := rest, queue_size := queue_size s - 1, node_pool := node_pool s + 1\<rparr>"
  let ?hw = "dispatch_event env ev 0 (subscriptions s) (dispatched s, w)"
  have q: "queue s = ev # rest" using Cons(2) by simp
  have step: "events_process_loop env (processed + 1) (?s1\<lparr>dispatched := fst ?hw\<rparr>, snd ?hw) = (r, s', w')"
    using Cons(3) q by (subst (asm) events_process_loop.simps) (simp add: dequeue_event_def Let_def)
  have "calls_of_slot i (dispatched s') =
     calls_of_slot i (fst ?hw) @ filter (slot_takes (subscriptions s) i) rest \<and>
   queue s' = [] \<and> r = processed + 1 + of_nat (length rest) \<and>
   subscriptions s' = subscriptions s"
    using Cons(1) [OF _ step] by simp
  then show ?case
    using q dispatch_event_slot [of 0 i env ev "subscriptions s" "(dispatched s, w)"] by simp
qed

lemma set_insert_node [simp]: "set (insert_node node q) = insert node (set q)"
  by (induction q) auto

lemma insert_node_position:
  "descending q \<Longrightarrow>
     \<exists>before after. q = before @ after \<and> insert_node node q = before @ node # after \<and>
       (\<forall>x\<in>set before. priority_value (priority x) \<ge> priority_value (priority node)) \<and>
       (\<forall>y\<in>set after. priority_value (priority y) < priority_value (priority node))"
proof (induction q)
  case Nil
  then show ?case by simp
next
  case (Cons current rest)
  show ?case
  proof (cases "priority_value (priority current) \<ge> priority_value (priority node)")
    case True
    from Cons.prems have "descending rest" by (simp add: descending_def)
    from Cons.IH [OF this] obtain before after where
      "rest = before @ after" "insert_node node rest = before @ node # after"
      "\<forall>x\<in>set before. priority_value (priority x) \<ge> priority_value (priority node)"
      "\<forall>y\<in>set after. priority_value (priority y) < priority_value (priority node)"
      by blast
    with True have "current # rest = (current # before) @ after \<and>
       insert_node node (current # rest) = (current # before) @ node # after \<and>
       (\<forall>x\<in>set (current # before). priority_value (priority x) \<ge> priority_value (priority node)) \<and>
       (\<forall>y\<in>set after. priority_value (priority y) < priority_value (priority node))"
      by simp
    then show ?thesis by blast
  next
    case False
    with Cons.prems have
      "\<forall>y\<in>set (current # rest). priority_value (priority y) < priority_value (priority node)"
      by (auto simp: descending_def)
    with False have "current # rest = [] @ (current # rest) \<and>
       insert_node node (current # rest) = [] @ node # (current # rest) \<and>
       (\<forall>x\<in>set []. priority_value (priority x) \<ge> priority_value (priority node)) \<and>
       (\<forall>y\<in>set (current # rest). priority_value (priority y) < priority_value (priority node))"
      by simp
    then show ?thesis by blast
  qed
qed

lemma insert_node_descending: "descending q \<Longrightarrow> descending (insert_node node q)"
  by (induction q) (auto simp: descending_def)

lemma enqueue_event_stored:
  assumes "enqueue_event env e (s, w) = (0, s', w')"
  shows "\<exists>ts d. queue s' = insert_node (e\<lparr>timestamp := ts, data := d\<rparr>) (queue s) \<and>
           queue_size s' = queue_size s + 1 \<and> subscriptions s' = subscriptions s \<and>
           dispatched s' = dispatched s \<and> ev_initialized s' = ev_initialized s"
  using assms
  apply (auto simp: enqueue_event_def create_queue_node_def Let_def
              split: if_splits option.splits)
  apply (rule exI, rule exI, rule refl)+
  done

lemma enqueue_event_success:
  assumes "enqueue_event env e (s, w) = (0, s', w')"
  shows "\<exists>node. same_event e node \<and> queue s' = insert_node node (queue s) \<and>
           queue_size s' = queue_size s + 1 \<and> subscriptions s' = subscriptions s \<and>
           dispatched s' = dispatched s \<and> ev_initialized s' = ev_initialized s"
proof -
  from enqueue_event_stored [OF assms] obtain ts d where
    "queue s' = insert_node (e\<lparr>timestamp := ts, data := d\<rparr>) (queue s)"
    "queue_size s' = queue_size s + 1" "subscriptions s' = subscriptions s"
    "dispatched s' = dispatched s" "ev_initialized s' = ev_initialized s"
    by blast
  moreover have "same_event e (e\<lparr>timestamp := ts, data := d\<rparr>)"
    by (simp add: same_event_def)
  ultimately show ?thesis by blast
qed

lemma publish_success:
  assumes "vgik_event_publish env (Some e) (s, w) = (0, s', w')"
  shows "\<exists>node. same_event e node \<and> queue s' = insert_node node (queue s) \<and>
           queue_size s' = queue_size s + 1 \<and> subscriptions s' = subscriptions s \<and>
           dispatched s' = dispatched s \<and> ev_initialized s' \<and> ev_initialized s"
proof -
  from assms have init: "ev_initialized s" and "fst (enqueue_event env e (s, w)) = 0"
    and "snd (enqueue_event env e (s, w)) = (s', w')"
    by (auto simp: vgik_event_publish_def Let_def split: if_splits)
  then have "enqueue_event env e (s, w) = (0, s', w')"
    by (metis prod.collapse)
  from enqueue_event_success [OF this] init show ?thesis by auto
qed

lemma first_free_slot_replicate:
  "0 < n \<Longrightarrow> \<not> active x \<Longrightarrow> first_free_slot k (replicate n x) = Some k"
  by (cases n) simp_all

lemma test_bus_fields:
  "ev_initialized test_bus" "queue test_bus = []" "queue_size test_bus = 0"
  "node_pool test_bus = 0" "dispatched test_bus = []"
  "length (subscriptions test_bus) = 128"
  "subscriptions test_bus ! 0 =
     \<lparr>sub_id = 1, sub_type = VGIK_EVENT_CUSTOM, handler = Some 0, sub_user_data = 0, active = True\<rparr>"
  by (simp_all add: test_bus_def vgik_event_subscribe_def vgik_events_init_def g_events_def
        first_free_slot_replicate VGIK_EVENTS_MAX_SUBSCRIPTIONS_def)

lemma publish_test_env:
  assumes "ev_initialized s" and "queue_size s < 256" and "node_pool s = 0" and "data e = None"
  shows "vgik_event_publish test_ev_env (Some e) (s, w) =
     (0, s\<lparr>queue := insert_node (e\<lparr>timestamp := w, data := None\<rparr>) (queue s),
            queue_size := queue_size s + 1\<rparr>, w)"
  using assms
  by (simp add: vgik_event_publish_def enqueue_event_def create_queue_node_def test_ev_env_def
        VGIK_EVENTS_QUEUE_SIZE_def Let_def)

lemma insert_node_replicate:
  "insert_node e (replicate n e) = replicate (Suc n) e"
  by (induction n) simp_all

lemma fold_publish_same:
  assumes "data e = None"
  shows "ev_initialized s \<Longrightarrow> node_pool s = 0 \<Longrightarrow> queue_size s + n \<le> 256 \<Longrightarrow>
     queue s = replicate (queue_size s) (e\<lparr>timestamp := w\<rparr>) \<Longrightarrow>
     fold (\<lambda>e sw. vgik_event_publish test_ev_env (Some e) (snd sw)) (replicate n e) (r, s, w) =
       (if n = 0 then r else 0,
        s\<lparr>queue := replicate (queue_size s + n) (e\<lparr>timestamp := w\<rparr>),
          queue_size := queue_size s + n\<rparr>, w)"
proof (induction n arbitrary: s r)
  case 0
  then show ?case by simp
next
  case (Suc n)
  let ?e' = "e\<lparr>timestamp := w\<rparr>"
  let ?s1 = "s\<lparr>queue := replicate (Suc (queue_size s)) ?e', queue_size := Suc (queue_size s)\<rparr>"
  have e': "e\<lparr>timestamp := w, data := None\<rparr> = ?e'"
    using assms by simp
  have step: "vgik_event_publish test_ev_env (Some e) (s, w) = (0, ?s1, w)"
    using Suc.prems assms by (simp add: publish_test_env e' insert_node_replicate)
  have "fold (\<lambda>e sw. vgik_event_publish test_ev_env (Some e) (snd sw)) (replicate n e) (0, ?s1, w) =
       (if n = 0 then 0 else 0,
        ?s1\<lparr>queue := replicate (queue_size ?s1 + n) ?e', queue_size := queue_size ?s1 + n\<rparr>, w)"
    using Suc.prems by (intro Suc.IH) simp_all
  then show ?case
    by (simp add: step)
qed

lemma published_256:
  "published (replicate 256 (test_event t p src)) =
     test_bus\<lparr>queue := replicate 256 ((test_event t p src)\<lparr>timestamp := 1\<rparr>), queue_size := 256\<rparr>"
  using fold_publish_same [of "test_event t p src" test_bus 256 1 0]
  by (simp add: published_def test_bus_fields test_event_def)

lemma replay_append: "replay env subs (xs @ ys) w = replay env subs ys (replay env subs xs w)"
  by (induction xs arbitrary: w) simp_all

lemma dispatch_event_world:
  "\<exists>new. dispatch_event env ev (length pre) rest (h, w) = (h @ new, replay env (pre @ rest) new w)"
proof (induction rest arbitrary: pre h w)
  case Nil
  have "dispatch_event env ev (length pre) [] (h, w) = (h @ [], replay env (pre @ []) [] w)"
    by simp
  then show ?case by blast
next
  case (Cons sub rest)
  have idx: "Suc (length pre) = length (pre @ [sub])" by simp
  have lst: "pre @ sub # rest = (pre @ [sub]) @ rest" by simp
  show ?case
  proof (cases "active sub \<and> type_matches (sub_type sub) (ev_type ev) \<and> handler sub \<noteq> None")
    case False
    then have "dispatch_event env ev (length pre) (sub # rest) (h, w) =
        dispatch_event env ev (Suc (length pre)) rest (h, w)"
      by (auto split: option.splits)
    with Cons.IH [of "pre @ [sub]" h w] show ?thesis
      unfolding idx lst by simp
  next
    case True
    then obtain f where f: "handler sub = Some f" by auto
    let ?w1 = "handler_fn env f ev (sub_user_data sub) w"
    have step: "dispatch_event env ev (length pre) (sub # rest) (h, w) =
        dispatch_event env ev (Suc (length pre)) rest (h @ [(length pre, ev)], ?w1)"
      using True f by simp
    from Cons.IH [of "pre @ [sub]" "h @ [(length pre, ev)]" ?w1] obtain new where
      new: "dispatch_event env ev (Suc (length pre)) rest (h @ [(length pre, ev)], ?w1) =
         ((h @ [(length pre, ev)]) @ new, replay env (pre @ sub # rest) new ?w1)"
      unfolding idx lst by auto
    have "dispatch_event env ev (length pre) (sub # rest) (h, w) =
        (h @ ((length pre, ev) # new), replay env (pre @ sub # rest) ((length pre, ev) # new) w)"
      using step new f by simp
    then show ?thesis by blast
  qed
qed

lemma dispatch_event_new:
  "\<exists>new. dispatch_event env ev 0 subs (h, w) = (h @ new, replay env subs new w) \<and>
     (\<forall>i. calls_of_slot i new = (if slot_takes subs i ev then [ev] else []))"
proof -
  from dispatch_event_world [of env ev "[]" subs h w] obtain new where
    new: "dispatch_event env ev 0 subs (h, w) = (h @ new, replay env subs new w)"
    by auto
  have "calls_of_slot i new = (if slot_takes subs i ev then [ev] else [])" for i
    using dispatch_event_slot [of 0 i env ev subs "(h, w)"] new by simp
  with new show ?thesis by blast
qed

lemma events_process_loop_world:
  "events_process_loop env processed (s, w) = (r, s', w') \<Longrightarrow>
     \<exists>new. dispatched s' = dispatched s @ new \<and> w' = replay env (subscriptions s) new w \<and>
       (\<forall>i. calls_of_slot i new = filter (slot_takes (subscriptions s) i) (queue s)) \<and>
       queue s' = [] \<and> r = processed + of_nat (length (queue s)) \<and>
       subscriptions s' = subscriptions s"
proof (induction q \<equiv> "queue s" arbitrary: s w processed)
  case Nil
  from Nil(2) Nil(1) [symmetric] have "dispatched s' = dispatched s @ [] \<and>
       w' = replay env (subscriptions s) [] w \<and>
       (\<forall>i. calls_of_slot i [] = filter (slot_takes (subscriptions s) i) (queue s)) \<and>
       queue s' = [] \<and> r = processed + of_nat (length (queue s)) \<and>
       subscriptions s' = subscriptions s"
    by (subst (asm) events_process_loop.simps) (simp add: dequeue_event_def)
  then show ?case by blast
next
  case (Cons ev rest)
  let ?s1 = "s\<lparr>queue := rest, queue_size := queue_size s - 1, node_pool := node_pool s + 1\<rparr>"
  have q: "queue s = ev # rest" using Cons(2) by simp
  from dispatch_event_new [of env ev "subscriptions s" "dispatched s" w] obtain n1 where
    d: "dispatch_event env ev 0 (subscriptions s) (dispatched s, w) =
          (dispatched s @ n1, replay env (subscriptions s) n1 w)"
    and c1: "\<And>i. calls_of_slot i n1 = (if slot_takes (subscriptions s) i ev then [ev] else [])"
    by blast
  let ?s2 = "?s1\<lparr>dispatched := dispatched s @ n1\<rparr>"
  have step: "events_process_loop env (processed + 1) (?s2, replay env (subscriptions s) n1 w) = (r, s', w')"
    using Cons(3) q d by (subst (asm) events_process_loop.simps) (simp add: dequeue_event_def Let_def)
  from Cons(1) [OF _ step] obtain n2 where
    n2: "dispatched s' = dispatched ?s2 @ n2"
      "w' = replay env (subscriptions ?s2) n2 (replay env (subscriptions s) n1 w)"
      "\<And>i. calls_of_slot i n2 = filter (slot_takes (subscriptions ?s2) i) (queue ?s2)"
      "queue s' = []" "r = processed + 1 + of_nat (length (queue ?s2))"
      "subscriptions s' = subscriptions ?s2"
    by auto
  have "dispatched s' = dispatched s @ (n1 @ n2) \<and>
       w' = replay env (subscriptions s) (n1 @ n2) w \<and>
       (\<forall>i. calls_of_slot i (n1 @ n2) = filter (slot_takes (subscriptions s) i) (queue s)) \<and>
       queue s' = [] \<and> r = processed + of_nat (length (queue s)) \<and>
       subscriptions s' = subscriptions s"
    using n2 c1 q by (simp add: replay_append)
  then show ?case by blast
qed

lemma only_slot:
  assumes "\<And>j. j \<noteq> i \<Longrightarrow> calls_of_slot j new = []"
  shows "new = map (Pair i) (calls_of_slot i new)"
  using assms
proof (induction new)
  case Nil
  then show ?case by simp
next
  case (Cons c cs)
  have fst: "fst c = i"
  proof (rule ccontr)
    assume "fst c \<noteq> i"
    from Cons.prems [OF this] show False by (simp add: calls_of_slot_def)
  qed
  have "calls_of_slot j cs = []" if "j \<noteq> i" for j
    using Cons.prems [OF that] fst that by (simp add: calls_of_slot_def)
  from Cons.IH [OF this] fst show ?case
    by (cases c) (simp add: calls_of_slot_def)
qed

lemma replay_only_slot:
  "handler (subs ! i) = Some h \<Longrightarrow>
     replay env subs (map (Pair i) evs) w =
       foldl (\<lambda>w ev. handler_fn env h ev (sub_user_data (subs ! i)) w) w evs"
  by (induction evs arbitrary: w) simp_all

lemma drain_result:
  assumes "ev_initialized s" and "vgik_events_process env (s, w) = (r, s', w')"
  shows "\<exists>new. dispatched s' = dispatched s @ new \<and> w' = replay env (subscriptions s) new w \<and>
       (\<forall>i. calls_of_slot i new = filter (slot_takes (subscriptions s) i) (queue s)) \<and>
       queue s' = [] \<and> r = of_nat (length (queue s)) \<and> subscriptions s' = subscriptions s"
proof -
  from assms have "events_process_loop env 0 (s, w) = (r, s', w')"
    by (simp add: vgik_events_process_def)
  from events_process_loop_world [OF this] show ?thesis by simp
qed

lemma drain_to_all_subscriber:
  assumes "ev_initialized s" and "vgik_events_process env (s, w) = (r, s', w')"
    and "i < length (subscriptions s)" and "active (subscriptions s ! i)"
    and "sub_type (subscriptions s ! i) = VGIK_EVENT_CUSTOM"
    and "handler (subscriptions s ! i) = Some h"
  shows "\<exists>new. dispatched s' = dispatched s @ new \<and> calls_of_slot i new = queue s \<and>
           w' = replay env (subscriptions s) new w \<and>
           ((\<forall>j<length (subscriptions s). j \<noteq> i \<longrightarrow> \<not> active (subscriptions s ! j)) \<longrightarrow>
              new = map (Pair i) (queue s) \<and>
              w' = foldl (\<lambda>w ev. handler_fn env h ev (sub_user_data (subscriptions s ! i)) w) w (queue s))"
proof -
  from drain_result [OF assms(1,2)] obtain new where
    new: "dispatched s' = dispatched s @ new" "w' = replay env (subscriptions s) new w"
      "\<And>j. calls_of_slot j new = filter (slot_takes (subscriptions s) j) (queue s)"
    by blast
  have "slot_takes (subscriptions s) i ev" for ev
    using assms(3-6) by (simp add: slot_takes_def type_matches_def)
  then have all: "calls_of_slot i new = queue s"
    using new(3) [of i] by simp
  have sole: "new = map (Pair i) (queue s) \<and>
      w' = foldl (\<lambda>w ev. handler_fn env h ev (sub_user_data (subscriptions s ! i)) w) w (queue s)"
    if others: "\<forall>j<length (subscriptions s). j \<noteq> i \<longrightarrow> \<not> active (subscriptions s ! j)"
  proof -
    have none: "calls_of_slot j new = []" if "j \<noteq> i" for j
    proof -
      have "\<not> slot_takes (subscriptions s) j ev" for ev
        using others that by (auto simp: slot_takes_def)
      then show ?thesis using new(3) [of j] by simp
    qed
    from only_slot [of i new, OF none] all have n: "new = map (Pair i) (queue s)" by simp
    with new(2) replay_only_slot [OF assms(6), of env "queue s" w] show ?thesis by simp
  qed
  from new(1,2) all sole show ?thesis by blast
qed

lemma test_bus_others_inactive:
  "\<forall>j<length (subscriptions test_bus). j \<noteq> 0 \<longrightarrow> \<not> active (subscriptions test_bus ! j)"
  by (simp add: test_bus_def vgik_event_subscribe_def vgik_events_init_def g_events_def
        first_free_slot_replicate VGIK_EVENTS_MAX_SUBSCRIPTIONS_def)

lemma length_insert_node [simp]: "length (insert_node node q) = Suc (length q)"
  by (induction q) simp_all

lemma filter_insert_node:
  assumes "descending q"
  shows "filter (\<lambda>n. priority n = p) (insert_node node q) = filter (\<lambda>n. priority n = p) (q @ [node])"
proof -
  from insert_node_position [OF assms, of node] obtain before after where
    q: "q = before @ after" and ins: "insert_node node q = before @ node # after"
    and low: "\<forall>y\<in>set after. priority_value (priority y) < priority_value (priority node)"
    by blast
  show ?thesis
  proof (cases "priority node = p")
    case True
    with low have "filter (\<lambda>n. priority n = p) after = []"
      by (auto simp: filter_empty_conv)
    with True show ?thesis unfolding ins by (simp add: q)
  next
    case False
    then show ?thesis unfolding ins by (simp add: q)
  qed
qed

lemma publish_each_success:
  "publish_each env es (s, w) = (rs, s', w') \<Longrightarrow> \<forall>x\<in>set rs. x = 0 \<Longrightarrow>
   descending (queue s) \<Longrightarrow> ev_initialized s \<Longrightarrow>
     \<exists>nodes. list_all2 same_event es nodes \<and> descending (queue s') \<and>
       (\<forall>p. filter (\<lambda>n. priority n = p) (queue s') = filter (\<lambda>n. priority n = p) (queue s @ nodes)) \<and>
       length (queue s') = length (queue s) + length es \<and>
       subscriptions s' = subscriptions s \<and> dispatched s' = dispatched s \<and> ev_initialized s'"
proof (induction es arbitrary: s w rs)
  case Nil
  then have "list_all2 same_event [] [] \<and> descending (queue s') \<and>
       (\<forall>p. filter (\<lambda>n. priority n = p) (queue s') = filter (\<lambda>n. priority n = p) (queue s @ [])) \<and>
       length (queue s') = length (queue s) + length ([] :: vgik_event_t list) \<and>
       subscriptions s' = subscriptions s \<and> dispatched s' = dispatched s \<and> ev_initialized s'"
    by simp
  then show ?case by blast
next
  case (Cons e es)
  obtain r1 s1 w1 where one: "vgik_event_publish env (Some e) (s, w) = (r1, s1, w1)"
    by (metis prod.exhaust)
  obtain rs1 s2 w2 where rest0: "publish_each env es (s1, w1) = (rs1, s2, w2)"
    by (metis prod.exhaust)
  have rest: "publish_each env es (s1, w1) = (rs1, s', w')" and rs: "rs = r1 # rs1"
    using Cons.prems(1) one rest0 by (simp_all add: Let_def)
  have r1: "r1 = 0" and rs1: "\<forall>x\<in>set rs1. x = 0"
    using Cons.prems(2) rs by simp_all
  from publish_success [OF one [unfolded r1]] obtain node where
    node: "same_event e node" "queue s1 = insert_node node (queue s)"
      "subscriptions s1 = subscriptions s" "dispatched s1 = dispatched s" "ev_initialized s1"
    by blast
  have d1: "descending (queue s1)"
    using Cons.prems(3) node(2) by (simp add: insert_node_descending)
  from Cons.IH [OF rest rs1 d1 node(5)] obtain nodes where
    nodes: "list_all2 same_event es nodes" "descending (queue s')"
      "\<And>p. filter (\<lambda>n. priority n = p) (queue s') = filter (\<lambda>n. priority n = p) (queue s1 @ nodes)"
      "length (queue s') = length (queue s1) + length es"
      "subscriptions s' = subscriptions s1" "dispatched s' = dispatched s1" "ev_initialized s'"
    by blast
  have f: "filter (\<lambda>n. priority n = p) (queue s') =
      filter (\<lambda>n. priority n = p) (queue s @ node # nodes)" for p
    using nodes(3) [of p] filter_insert_node [OF Cons.prems(3), of p node] node(2) by simp
  have "list_all2 same_event (e # es) (node # nodes) \<and> descending (queue s') \<and>
       (\<forall>p. filter (\<lambda>n. priority n = p) (queue s') =
            filter (\<lambda>n. priority n = p) (queue s @ node # nodes)) \<and>
       length (queue s') = length (queue s) + length (e # es) \<and>
       subscriptions s' = subscriptions s \<and> dispatched s' = dispatched s \<and> ev_initialized s'"
    using node nodes f by simp
  then show ?case by blast
qed

lemma publish_recording_env:
  assumes "ev_initialized s" and "queue_size s < 256" and "node_pool s = 0" and "data e = None"
  shows "vgik_event_publish recording_env (Some e) (s, w) =
     (0, s\<lparr>queue := insert_node (e\<lparr>timestamp := fst w, data := None\<rparr>) (queue s),
            queue_size := queue_size s + 1\<rparr>, w)"
  using assms
  by (simp add: vgik_event_publish_def enqueue_event_def create_queue_node_def recording_env_def
        VGIK_EVENTS_QUEUE_SIZE_def Let_def)

text \<open>
  Claim C3: a successful publish on a queue in descending order of priority puts the
  stored copy of the event after every entry whose priority is at least its own and
  before every entry of lower priority, and the queue stays in descending order; so
  events of equal priority leave in the order they came. When events of priorities HIGH,
  LOW, HIGH are published into the empty queue and the queue is drained, the handler of a
  subscriber to all events is applied to the first, then the third, then the second: the
  world after the drain is the world these handler calls produce (when there is no other
  active subscription, the three applications of this handler and nothing else). The
  same holds for any number of published events, four included: the queue holds their
  copies in descending order of priority, those of equal priority in the order of
  publication, and the drain applies the handler to them in queue order.
\<close>

theorem publish_priority_order:
  "(descending (queue s) \<and> vgik_event_publish env (Some e) (s, w) = (0, s', w') \<longrightarrow>
      (\<exists>node before after.
          same_event e node \<and> queue s = before @ after \<and> queue s' = before @ node # after \<and>
          (\<forall>x\<in>set before. priority_value (priority x) \<ge> priority_value (priority e)) \<and>
          (\<forall>y\<in>set after. priority_value (priority y) < priority_value (priority e)) \<and>
          descending (queue s'))) \<and>
   (queue s0 = [] \<and>
    i < length (subscriptions s0) \<and> active (subscriptions s0 ! i) \<and>
    sub_type (subscriptions s0 ! i) = VGIK_EVENT_CUSTOM \<and> handler (subscriptions s0 ! i) = Some h \<and>
    priority e1 = VGIK_EVENT_PRIORITY_HIGH \<and> priority e2 = VGIK_EVENT_PRIORITY_LOW \<and>
    priority e3 = VGIK_EVENT_PRIORITY_HIGH \<and>
    vgik_event_publish env (Some e1) (s0, w0) = (0, s1, w1) \<and>
    vgik_event_publish env (Some e2) (s1, w1) = (0, s2, w2) \<and>
    vgik_event_publish env (Some e3) (s2, w2) = (0, s3, w3) \<and>
    vgik_events_process env (s3, w3) = (r, s4, w4) \<longrightarrow>
      (\<exists>n1 n2 n3.
          same_event e1 n1 \<and> same_event e2 n2 \<and> same_event e3 n3 \<and>
          queue s3 = [n1, n3, n2] \<and>
          calls_of_slot i (dispatched s4) = calls_of_slot i (dispatched s0) @ [n1, n3, n2] \<and>
          r = 3 \<and> queue s4 = [] \<and>
          (\<exists>new. dispatched s4 = dispatched s0 @ new \<and> calls_of_slot i new = [n1, n3, n2] \<and>
             w4 = replay env (subscriptions s0) new w3) \<and>
          ((\<forall>j<length (subscriptions s0). j \<noteq> i \<longrightarrow> \<not> active (subscriptions s0 ! j)) \<longrightarrow>
             w4 = handler_fn env h n2 (sub_user_data (subscriptions s0 ! i))
                    (handler_fn env h n3 (sub_user_data (subscriptions s0 ! i))
                       (handler_fn env h n1 (sub_user_data (subscriptions s0 ! i)) w3))))) \<and>
   (ev_initialized t0 \<and> queue t0 = [] \<and>
    k < length (subscriptions t0) \<and> active (subscriptions t0 ! k) \<and>
    sub_type (subscriptions t0 ! k) = VGIK_EVENT_CUSTOM \<and> handler (subscriptions t0 ! k) = Some g \<and>
    publish_each env es (t0, v0) = (rs, t1, v1) \<and> (\<forall>x\<in>set rs. x = 0) \<and>
    vgik_events_process env (t1, v1) = (r', t2, v2) \<longrightarrow>
      (\<exists>nodes.
          list_all2 same_event es nodes \<and> descending (queue t1) \<and>
          (\<forall>p. filter (\<lambda>n. priority n = p) (queue t1) = filter (\<lambda>n. priority n = p) nodes) \<and>
          length (queue t1) = length es \<and> r' = of_nat (length es) \<and> queue t2 = [] \<and>
          (\<exists>new. dispatched t2 = dispatched t0 @ new \<and> calls_of_slot k new = queue t1 \<and>
             v2 = replay env (subscriptions t0) new v1) \<and>
          ((\<forall>j<length (subscriptions t0). j \<noteq> k \<longrightarrow> \<not> active (subscriptions t0 ! j)) \<longrightarrow>
             v2 = foldl (\<lambda>w ev. handler_fn env g ev (sub_user_data (subscriptions t0 ! k)) w) v1 (queue t1))))"
proof (intro conjI impI)
  assume a: "descending (queue s) \<and> vgik_event_publish env (Some e) (s, w) = (0, s', w')"
  then have "vgik_event_publish env (Some e) (s, w) = (0, s', w')" by simp
  from publish_success [OF this]
  obtain node where node: "same_event e node" "queue s' = insert_node node (queue s)"
    by blast
  from a insert_node_position [of "queue s" node] obtain before after where
    "queue s = before @ after" "insert_node node (queue s) = before @ node # after"
    "\<forall>x\<in>set before. priority_value (priority x) \<ge> priority_value (priority node)"
    "\<forall>y\<in>set after. priority_value (priority y) < priority_value (priority node)"
    by blast
  moreover have "priority node = priority e"
    using node(1) by (simp add: same_event_def)
  moreover have "descending (queue s')"
    using a node(2) by (simp add: insert_node_descending)
  ultimately show "\<exists>node before after.
          same_event e node \<and> queue s = before @ after \<and> queue s' = before @ node # after \<and>
          (\<forall>x\<in>set before. priority_value (priority x) \<ge> priority_value (priority e)) \<and>
          (\<forall>y\<in>set after. priority_value (priority y) < priority_value (priority e)) \<and>
          descending (queue s')"
    using node by auto
next
  assume a: "queue s0 = [] \<and>
    i < length (subscriptions s0) \<and> active (subscriptions s0 ! i) \<and>
    sub_type (subscriptions s0 ! i) = VGIK_EVENT_CUSTOM \<and> handler (subscriptions s0 ! i) = Some h \<and>
    priority e1 = VGIK_EVENT_PRIORITY_HIGH \<and> priority e2 = VGIK_EVENT_PRIORITY_LOW \<and>
    priority e3 = VGIK_EVENT_PRIORITY_HIGH \<and>
    vgik_event_publish env (Some e1) (s0, w0) = (0, s1, w1) \<and>
    vgik_event_publish env (Some e2) (s1, w1) = (0, s2, w2) \<and>
    vgik_event_publish env (Some e3) (s2, w2) = (0, s3, w3) \<and>
    vgik_events_process env (s3, w3) = (r, s4, w4)"
  from a have "vgik_event_publish env (Some e1) (s0, w0) = (0, s1, w1)" by simp
  from publish_success [OF this]
  obtain n1 where n1: "same_event e1 n1" "queue s1 = insert_node n1 (queue s0)"
      "subscriptions s1 = subscriptions s0" "dispatched s1 = dispatched s0"
    by blast
  from a have "vgik_event_publish env (Some e2) (s1, w1) = (0, s2, w2)" by simp
  from publish_success [OF this]
  obtain n2 where n2: "same_event e2 n2" "queue s2 = insert_node n2 (queue s1)"
      "subscriptions s2 = subscriptions s1" "dispatched s2 = dispatched s1"
    by blast
  from a have "vgik_event_publish env (Some e3) (s2, w2) = (0, s3, w3)" by simp
  from publish_success [OF this]
  obtain n3 where n3: "same_event e3 n3" "queue s3 = insert_node n3 (queue s2)"
      "subscriptions s3 = subscriptions s2" "dispatched s3 = dispatched s2" "ev_initialized s3"
    by blast
  have p: "priority n1 = VGIK_EVENT_PRIORITY_HIGH" "priority n2 = VGIK_EVENT_PRIORITY_LOW"
      "priority n3 = VGIK_EVENT_PRIORITY_HIGH"
    using a n1(1) n2(1) n3(1) by (simp_all add: same_event_def)
  have q3: "queue s3 = [n1, n3, n2]"
    using a n1(2) n2(2) n3(2) p by simp
  have subs: "subscriptions s3 = subscriptions s0" and disp: "dispatched s3 = dispatched s0"
    using n1(3,4) n2(3,4) n3(3,4) by simp_all
  from a have pr: "vgik_events_process env (s3, w3) = (r, s4, w4)" by simp
  have slot: "i < length (subscriptions s3)" "active (subscriptions s3 ! i)"
    "sub_type (subscriptions s3 ! i) = VGIK_EVENT_CUSTOM" "handler (subscriptions s3 ! i) = Some h"
    using a subs by simp_all
  from drain_result [OF n3(5) pr] have fin: "r = 3" "queue s4 = []"
    using q3 by auto
  from drain_to_all_subscriber [OF n3(5) pr slot] obtain new where
    new: "dispatched s4 = dispatched s0 @ new" "calls_of_slot i new = [n1, n3, n2]"
      "w4 = replay env (subscriptions s0) new w3"
      "(\<forall>j<length (subscriptions s0). j \<noteq> i \<longrightarrow> \<not> active (subscriptions s0 ! j)) \<longrightarrow>
          w4 = foldl (\<lambda>w ev. handler_fn env h ev (sub_user_data (subscriptions s0 ! i)) w) w3 [n1, n3, n2]"
    unfolding subs disp q3 by blast
  have c: "calls_of_slot i (dispatched s4) = calls_of_slot i (dispatched s0) @ [n1, n3, n2]"
    using new(1,2) by simp
  have w: "(\<forall>j<length (subscriptions s0). j \<noteq> i \<longrightarrow> \<not> active (subscriptions s0 ! j)) \<longrightarrow>
             w4 = handler_fn env h n2 (sub_user_data (subscriptions s0 ! i))
                    (handler_fn env h n3 (sub_user_data (subscriptions s0 ! i))
                       (handler_fn env h n1 (sub_user_data (subscriptions s0 ! i)) w3))"
    using new(4) by simp
  have e: "\<exists>new. dispatched s4 = dispatched s0 @ new \<and> calls_of_slot i new = [n1, n3, n2] \<and>
             w4 = replay env (subscriptions s0) new w3"
    using new(1-3) by blast
  from n1(1) n2(1) n3(1) q3 c fin e w show "\<exists>n1 n2 n3.
          same_event e1 n1 \<and> same_event e2 n2 \<and> same_event e3 n3 \<and>
          queue s3 = [n1, n3, n2] \<and>
          calls_of_slot i (dispatched s4) = calls_of_slot i (dispatched s0) @ [n1, n3, n2] \<and>
          r = 3 \<and> queue s4 = [] \<and>
          (\<exists>new. dispatched s4 = dispatched s0 @ new \<and> calls_of_slot i new = [n1, n3, n2] \<and>
             w4 = replay env (subscriptions s0) new w3) \<and>
          ((\<forall>j<length (subscriptions s0). j \<noteq> i \<longrightarrow> \<not> active (subscriptions s0 ! j)) \<longrightarrow>
             w4 = handler_fn env h n2 (sub_user_data (subscriptions s0 ! i))
                    (handler_fn env h n3 (sub_user_data (subscriptions s0 ! i))
                       (handler_fn env h n1 (sub_user_data (subscriptions s0 ! i)) w3)))"
    by blast
next
  assume a: "ev_initialized t0 \<and> queue t0 = [] \<and>
    k < length (subscriptions t0) \<and> active (subscriptions t0 ! k) \<and>
    sub_type (subscriptions t0 ! k) = VGIK_EVENT_CUSTOM \<and> handler (subscriptions t0 ! k) = Some g \<and>
    publish_each env es (t0, v0) = (rs, t1, v1) \<and> (\<forall>x\<in>set rs. x = 0) \<and>
    vgik_events_process env (t1, v1) = (r', t2, v2)"
  then have pe: "publish_each env es (t0, v0) = (rs, t1, v1)" and ok: "\<forall>x\<in>set rs. x = 0"
    and d0: "descending (queue t0)" and i0: "ev_initialized t0"
    and pr: "vgik_events_process env (t1, v1) = (r', t2, v2)"
    by (simp_all add: descending_def)
  from publish_each_success [OF pe ok d0 i0] a obtain nodes where
    nodes: "list_all2 same_event es nodes" "descending (queue t1)"
      "\<And>p. filter (\<lambda>n. priority n = p) (queue t1) = filter (\<lambda>n. priority n = p) nodes"
      "length (queue t1) = length es"
      "subscriptions t1 = subscriptions t0" "dispatched t1 = dispatched t0" "ev_initialized t1"
    by auto
  have slot: "k < length (subscriptions t1)" "active (subscriptions t1 ! k)"
    "sub_type (subscriptions t1 ! k) = VGIK_EVENT_CUSTOM" "handler (subscriptions t1 ! k) = Some g"
    using a nodes(5) by simp_all
  from drain_result [OF nodes(7) pr] have fin: "r' = of_nat (length es)" "queue t2 = []"
    using nodes(4) by auto
  from drain_to_all_subscriber [OF nodes(7) pr slot] obtain new where
    new: "dispatched t2 = dispatched t0 @ new" "calls_of_slot k new = queue t1"
      "v2 = replay env (subscriptions t0) new v1"
      "(\<forall>j<length (subscriptions t0). j \<noteq> k \<longrightarrow> \<not> active (subscriptions t0 ! j)) \<longrightarrow>
          v2 = foldl (\<lambda>w ev. handler_fn env g ev (sub_user_data (subscriptions t0 ! k)) w) v1 (queue t1)"
    unfolding nodes(5,6) by blast
  have e: "\<exists>new. dispatched t2 = dispatched t0 @ new \<and> calls_of_slot k new = queue t1 \<and>
             v2 = replay env (subscriptions t0) new v1"
    using new(1-3) by blast
  from nodes(1-4) fin e new(4) show "\<exists>nodes.
          list_all2 same_event es nodes \<and> descending (queue t1) \<and>
          (\<forall>p. filter (\<lambda>n. priority n = p) (queue t1) = filter (\<lambda>n. priority n = p) nodes) \<and>
          length (queue t1) = length es \<and> r' = of_nat (length es) \<and> queue t2 = [] \<and>
          (\<exists>new. dispatched t2 = dispatched t0 @ new \<and> calls_of_slot k new = queue t1 \<and>
             v2 = replay env (subscriptions t0) new v1) \<and>
          ((\<forall>j<length (subscriptions t0). j \<noteq> k \<longrightarrow> \<not> active (subscriptions t0 ! j)) \<longrightarrow>
             v2 = foldl (\<lambda>w ev. handler_fn env g ev (sub_user_data (subscriptions t0 ! k)) w) v1 (queue t1))"
    by blast
qed

theorem publish_priority_order_witness:
  "publish_each recording_env [first_high, second_low, third_high] (test_bus, (1, [])) =
     ([0, 0, 0],
      test_bus\<lparr>queue := [first_high\<lparr>timestamp := 1\<rparr>, third_high\<lparr>timestamp := 1\<rparr>,
                         second_low\<lparr>timestamp := 1\<rparr>], queue_size := 3\<rparr>, (1, [])) \<and>
   snd (snd (vgik_events_process recording_env
       (test_bus\<lparr>queue := [first_high\<lparr>timestamp := 1\<rparr>, third_high\<lparr>timestamp := 1\<rparr>,
                          second_low\<lparr>timestamp := 1\<rparr>], queue_size := 3\<rparr>, (1, [])))) =
     (1, [(0, first_high\<lparr>timestamp := 1\<rparr>), (0, third_high\<lparr>timestamp := 1\<rparr>),
          (0, second_low\<lparr>timestamp := 1\<rparr>)]) \<and>
   publish_each recording_env [first_high, second_low, third_high, fourth_normal] (test_bus, (1, [])) =
     ([0, 0, 0, 0],
      test_bus\<lparr>queue := [first_high\<lparr>timestamp := 1\<rparr>, third_high\<lparr>timestamp := 1\<rparr>,
                         fourth_normal\<lparr>timestamp := 1\<rparr>, second_low\<lparr>timestamp := 1\<rparr>],
               queue_size := 4\<rparr>, (1, [])) \<and>
   snd (snd (vgik_events_process recording_env
       (test_bus\<lparr>queue := [first_high\<lparr>timestamp := 1\<rparr>, third_high\<lparr>timestamp := 1\<rparr>,
                          fourth_normal\<lparr>timestamp := 1\<rparr>, second_low\<lparr>timestamp := 1\<rparr>],
                queue_size := 4\<rparr>, (1, [])))) =
     (1, [(0, first_high\<lparr>timestamp := 1\<rparr>), (0, third_high\<lparr>timestamp := 1\<rparr>),
          (0, fourth_normal\<lparr>timestamp := 1\<rparr>), (0, second_low\<lparr>timestamp := 1\<rparr>)])"
proof -
  let ?w = "(1, []) :: 64 word \<times> (nat \<times> vgik_event_t) list"
  let ?n1 = "first_high\<lparr>timestamp := 1\<rparr>"
  let ?n2 = "second_low\<lparr>timestamp := 1\<rparr>"
  let ?n3 = "third_high\<lparr>timestamp := 1\<rparr>"
  let ?n4 = "fourth_normal\<lparr>timestamp := 1\<rparr>"
  let ?s1 = "test_bus\<lparr>queue := [?n1], queue_size := 1\<rparr>"
  let ?s2 = "test_bus\<lparr>queue := [?n1, ?n2], queue_size := 2\<rparr>"
  let ?s3 = "test_bus\<lparr>queue := [?n1, ?n3, ?n2], queue_size := 3\<rparr>"
  let ?s4 = "test_bus\<lparr>queue := [?n1, ?n3, ?n4, ?n2], queue_size := 4\<rparr>"
  let ?r = "vgik_events_process recording_env (?s3, ?w)"
  let ?r4 = "vgik_events_process recording_env (?s4, ?w)"
  have p1: "vgik_event_publish recording_env (Some first_high) (test_bus, ?w) = (0, ?s1, ?w)"
    by (simp add: publish_recording_env test_bus_fields first_high_def test_event_def)
  have p2: "vgik_event_publish recording_env (Some second_low) (?s1, ?w) = (0, ?s2, ?w)"
    by (simp add: publish_recording_env test_bus_fields first_high_def second_low_def test_event_def)
  have p3: "vgik_event_publish recording_env (Some third_high) (?s2, ?w) = (0, ?s3, ?w)"
    by (simp add: publish_recording_env test_bus_fields first_high_def second_low_def third_high_def
          test_event_def)
  have p4: "vgik_event_publish recording_env (Some fourth_normal) (?s3, ?w) = (0, ?s4, ?w)"
    by (simp add: publish_recording_env test_bus_fields first_high_def second_low_def third_high_def
          fourth_normal_def test_event_def)
  have pe3: "publish_each recording_env [first_high, second_low, third_high] (test_bus, ?w) =
      ([0, 0, 0], ?s3, ?w)"
    by (simp only: publish_each.simps Let_def snd_conv fst_conv p1 p2 p3)
  have pe4: "publish_each recording_env [first_high, second_low, third_high, fourth_normal] (test_bus, ?w) =
      ([0, 0, 0, 0], ?s4, ?w)"
    by (simp only: publish_each.simps Let_def snd_conv fst_conv p1 p2 p3 p4)
  have sole: "\<forall>j<length (subscriptions test_bus). j \<noteq> 0 \<longrightarrow> \<not> active (subscriptions test_bus ! j)"
    by (rule test_bus_others_inactive)
  have ha: "descending (queue ?s2) \<and> vgik_event_publish recording_env (Some third_high) (?s2, ?w) = (0, ?s3, ?w)"
    using p3 by (simp add: descending_def first_high_def second_low_def test_event_def)
  have hb: "queue test_bus = [] \<and>
    0 < length (subscriptions test_bus) \<and> active (subscriptions test_bus ! 0) \<and>
    sub_type (subscriptions test_bus ! 0) = VGIK_EVENT_CUSTOM \<and>
    handler (subscriptions test_bus ! 0) = Some 0 \<and>
    priority first_high = VGIK_EVENT_PRIORITY_HIGH \<and> priority second_low = VGIK_EVENT_PRIORITY_LOW \<and>
    priority third_high = VGIK_EVENT_PRIORITY_HIGH \<and>
    vgik_event_publish recording_env (Some first_high) (test_bus, ?w) = (0, ?s1, ?w) \<and>
    vgik_event_publish recording_env (Some second_low) (?s1, ?w) = (0, ?s2, ?w) \<and>
    vgik_event_publish recording_env (Some third_high) (?s2, ?w) = (0, ?s3, ?w) \<and>
    vgik_events_process recording_env (?s3, ?w) = (fst ?r, fst (snd ?r), snd (snd ?r))"
    using p1 p2 p3
    by (simp add: test_bus_fields first_high_def second_low_def third_high_def test_event_def)
  have hc: "ev_initialized test_bus \<and> queue test_bus = [] \<and>
    0 < length (subscriptions test_bus) \<and> active (subscriptions test_bus ! 0) \<and>
    sub_type (subscriptions test_bus ! 0) = VGIK_EVENT_CUSTOM \<and>
    handler (subscriptions test_bus ! 0) = Some 0 \<and>
    publish_each recording_env [first_high, second_low, third_high, fourth_normal] (test_bus, ?w) =
      ([0, 0, 0, 0], ?s4, ?w) \<and>
    (\<forall>x\<in>set [0, 0, 0, 0 :: c_int]. x = 0) \<and>
    vgik_events_process recording_env (?s4, ?w) = (fst ?r4, fst (snd ?r4), snd (snd ?r4))"
    using pe4 by (simp add: test_bus_fields)
  note a = publish_priority_order [where s = ?s2 and env = recording_env and e = third_high
      and w = ?w and s' = ?s3 and w' = ?w, THEN conjunct1, THEN mp, OF ha]
  note b = publish_priority_order [where env = recording_env and ?s0.0 = test_bus and i = 0
      and h = 0 and ?e1.0 = first_high and ?e2.0 = second_low and ?e3.0 = third_high
      and ?w0.0 = ?w and ?s1.0 = ?s1 and ?w1.0 = ?w and ?s2.0 = ?s2 and ?w2.0 = ?w
      and ?s3.0 = ?s3 and ?w3.0 = ?w and r = "fst ?r" and ?s4.0 = "fst (snd ?r)"
      and ?w4.0 = "snd (snd ?r)", THEN conjunct2, THEN conjunct1, THEN mp, OF hb]
  note c = publish_priority_order [where env = recording_env and ?t0.0 = test_bus and k = 0
      and g = 0 and es = "[first_high, second_low, third_high, fourth_normal]" and ?v0.0 = ?w
      and rs = "[0, 0, 0, 0]" and ?t1.0 = ?s4 and ?v1.0 = ?w and r' = "fst ?r4"
      and ?t2.0 = "fst (snd ?r4)" and ?v2.0 = "snd (snd ?r4)",
      THEN conjunct2, THEN conjunct2, THEN mp, OF hc]
  have w3: "snd (snd ?r) = (1, [(0, ?n1), (0, ?n3), (0, ?n2)])"
    using b sole by (auto simp: recording_env_def test_bus_fields)
  have w4: "snd (snd ?r4) = (1, [(0, ?n1), (0, ?n3), (0, ?n4), (0, ?n2)])"
    using c sole by (auto simp: recording_env_def test_bus_fields)
  have "\<exists>node before after. same_event third_high node \<and> queue ?s3 = before @ node # after"
    using a by auto
  with pe3 pe4 w3 w4 show ?thesis by simp
qed

text \<open>
  Claim C5: with 256 events queued, a publish returns -1 and reports the full queue on
  stderr; the event is not queued, and nothing else of the state changes: the queue and
  its size are as before.
\<close>

theorem publish_on_full_queue:
  assumes "ev_initialized s"
    and "length (queue s) = VGIK_EVENTS_QUEUE_SIZE"
    and "queue_size s = length (queue s)"
  shows "VGIK_EVENTS_QUEUE_SIZE = 256 \<and>
     (\<exists>s'. vgik_event_publish env (Some e) (s, w) = (- 1, s', w) \<and>
        s' = s\<lparr>stderr_out := stderr_out s @ [Queue_full_dropping (ev_type e)]\<rparr> \<and>
        queue s' = queue s \<and> queue_size s' = VGIK_EVENTS_QUEUE_SIZE \<and>
        vgik_events_queue_size s' = vgik_events_queue_size s)"
  using assms
  by (simp add: vgik_event_publish_def enqueue_event_def vgik_events_queue_size_def
        VGIK_EVENTS_QUEUE_SIZE_def)

theorem publish_on_full_queue_witness:
  "vgik_event_publish test_ev_env
     (Some (test_event VGIK_EVENT_CONFIG_CHANGED VGIK_EVENT_PRIORITY_CRITICAL ''new'')) (full_bus, 9) =
       (- 1, full_bus\<lparr>stderr_out := stderr_out full_bus @ [Queue_full_dropping VGIK_EVENT_CONFIG_CHANGED]\<rparr>, 9)"
proof -
  have h: "ev_initialized full_bus" "length (queue full_bus) = VGIK_EVENTS_QUEUE_SIZE"
    "queue_size full_bus = length (queue full_bus)"
    by (simp_all add: full_bus_def published_256 test_bus_fields VGIK_EVENTS_QUEUE_SIZE_def)
  show ?thesis
    using publish_on_full_queue [OF h, of test_ev_env
      "test_event VGIK_EVENT_CONFIG_CHANGED VGIK_EVENT_PRIORITY_CRITICAL ''new''" 9]
    by (auto simp: test_event_def)
qed

text \<open>
  Claim C8: during a drain, the handler of an active subscription of type
  \<^verbatim>\<open>VGIK_EVENT_CUSTOM\<close> is applied to every queued event in queue order, whatever the type
  of the event: the world after the drain is the world that the handler calls made
  produce, and the calls of this subscription are one for each event of the queue; when it
  is the only active subscription, the world is the one its handler produces from the
  events of the queue, one after the other. No subscription type matches the events of
  type \<^verbatim>\<open>VGIK_EVENT_CUSTOM\<close> and no others.
\<close>

theorem custom_subscription_receives_all:
  assumes "ev_initialized s"
    and "i < length (subscriptions s)"
    and "active (subscriptions s ! i)"
    and "sub_type (subscriptions s ! i) = VGIK_EVENT_CUSTOM"
    and "handler (subscriptions s ! i) = Some h"
  shows "calls_of_slot i (dispatched (fst (snd (vgik_events_process env (s, w))))) =
           calls_of_slot i (dispatched s) @ queue s \<and>
         (\<exists>new. dispatched (fst (snd (vgik_events_process env (s, w)))) = dispatched s @ new \<and>
            calls_of_slot i new = queue s \<and>
            snd (snd (vgik_events_process env (s, w))) = replay env (subscriptions s) new w) \<and>
         ((\<forall>j<length (subscriptions s). j \<noteq> i \<longrightarrow> \<not> active (subscriptions s ! j)) \<longrightarrow>
            snd (snd (vgik_events_process env (s, w))) =
              foldl (\<lambda>w ev. handler_fn env h ev (sub_user_data (subscriptions s ! i)) w) w (queue s)) \<and>
         (\<forall>t. type_matches VGIK_EVENT_CUSTOM t) \<and>
         \<not> (\<exists>f. \<forall>t. type_matches f t \<longleftrightarrow> t = VGIK_EVENT_CUSTOM)"
proof -
  obtain r s' w' where res: "vgik_events_process env (s, w) = (r, s', w')"
    by (metis prod.exhaust)
  from drain_to_all_subscriber [OF assms(1) res assms(2-5)] obtain new where
    new: "dispatched s' = dispatched s @ new" "calls_of_slot i new = queue s"
      "w' = replay env (subscriptions s) new w"
      "(\<forall>j<length (subscriptions s). j \<noteq> i \<longrightarrow> \<not> active (subscriptions s ! j)) \<longrightarrow>
              new = map (Pair i) (queue s) \<and>
              w' = foldl (\<lambda>w ev. handler_fn env h ev (sub_user_data (subscriptions s ! i)) w) w (queue s)"
    by blast
  have "calls_of_slot i (dispatched s') = calls_of_slot i (dispatched s) @ queue s"
    using new(1,2) by simp
  moreover have "\<exists>new. dispatched s' = dispatched s @ new \<and> calls_of_slot i new = queue s \<and>
            w' = replay env (subscriptions s) new w"
    using new(1-3) by blast
  moreover have "\<forall>t. type_matches VGIK_EVENT_CUSTOM t"
    by (simp add: type_matches_def)
  moreover have "\<not> (\<exists>f. \<forall>t. type_matches f t \<longleftrightarrow> t = VGIK_EVENT_CUSTOM)"
  proof
    assume "\<exists>f. \<forall>t. type_matches f t \<longleftrightarrow> t = VGIK_EVENT_CUSTOM"
    then obtain f where f: "\<And>t. type_matches f t \<longleftrightarrow> t = VGIK_EVENT_CUSTOM" by blast
    show False
    proof (cases "f = VGIK_EVENT_CUSTOM")
      case True
      with f [of VGIK_EVENT_CONFIG_CHANGED] show False by (simp add: type_matches_def)
    next
      case False
      with f [of f] show False by (simp add: type_matches_def)
    qed
  qed
  ultimately show ?thesis
    using new(4) unfolding res by simp
qed

theorem custom_subscription_receives_all_witness:
  "calls_of_slot 0 (dispatched (fst (snd (vgik_events_process recording_env (two_event_bus, (4, [])))))) =
     [test_event VGIK_EVENT_SERVICE_CRASHED VGIK_EVENT_PRIORITY_CRITICAL ''svc'',
      test_event VGIK_EVENT_CONFIG_CHANGED VGIK_EVENT_PRIORITY_NORMAL ''cfg''] \<and>
   snd (snd (vgik_events_process recording_env (two_event_bus, (4, [])))) =
     (4, [(0, test_event VGIK_EVENT_SERVICE_CRASHED VGIK_EVENT_PRIORITY_CRITICAL ''svc''),
          (0, test_event VGIK_EVENT_CONFIG_CHANGED VGIK_EVENT_PRIORITY_NORMAL ''cfg'')])"
proof -
  have h: "ev_initialized two_event_bus" "0 < length (subscriptions two_event_bus)"
    "active (subscriptions two_event_bus ! 0)"
    "sub_type (subscriptions two_event_bus ! 0) = VGIK_EVENT_CUSTOM"
    "handler (subscriptions two_event_bus ! 0) = Some 0"
    by (simp_all add: two_event_bus_def test_bus_fields)
  have o: "\<forall>j<length (subscriptions two_event_bus). j \<noteq> 0 \<longrightarrow> \<not> active (subscriptions two_event_bus ! j)"
    using test_bus_others_inactive by (simp add: two_event_bus_def)
  note t = custom_subscription_receives_all [OF h, of recording_env "(4, [])"]
  from t [THEN conjunct1] t [THEN conjunct2, THEN conjunct2, THEN conjunct1, THEN mp, OF o]
  show ?thesis
    by (simp add: two_event_bus_def test_bus_fields recording_env_def)
qed

end
